theory Spec2Isabelle
  imports Main
begin

section \<open>Woodpecker Online: solution-line grading, SAN normalisation, progress recording\<close>

text \<open>
  A shallow embedding of the grading core of \<^verbatim>\<open>cmd/server/main.go\<close> and of the data
  model of package \<^verbatim>\<open>model\<close>. Go strings are byte sequences and are modelled as
  \<^typ>\<open>string\<close> (lists of 8-bit characters). Go slices are modelled as lists; a nil slice
  and an empty slice both have length 0 and are both the empty list. The Go \<^verbatim>\<open>int\<close>
  values of the grader (indices, depths, scores) only ever hold values between 0 and the
  length of a slice and are modelled as \<^typ>\<open>nat\<close>.
\<close>

subsection \<open>Data model (package model)\<close>

datatype Line = Line (SAN: string) (Children: "Line list") (IsTick: bool)

record Solution =
  Lines :: "Line list"
  AcceptedAlternatives :: "string list list"

record Puzzle =
  ID :: string
  Difficulty :: string
  FEN :: string
  Solution :: Solution
  Ticks :: "string list"

subsection \<open>The functions of package strings that normalizeSAN calls\<close>

text \<open>
  \<^verbatim>\<open>strings.ToLower\<close> and \<^verbatim>\<open>strings.TrimSpace\<close> are modelled on ASCII: the letters
  A to Z are mapped to a to z, and the white space that is trimmed is tab, line feed,
  vertical tab, form feed, carriage return and space. On a string of ASCII bytes this is
  what Go computes; bytes from 128 on are left as they are by the model.
\<close>

definition isUpper :: "char \<Rightarrow> bool" where
  "isUpper c = (65 \<le> (of_char c :: nat) \<and> (of_char c :: nat) \<le> 90)"

definition toLowerByte :: "char \<Rightarrow> char" where
  "toLowerByte c = (if isUpper c then char_of ((of_char c :: nat) + 32) else c)"

definition ToLower :: "string \<Rightarrow> string" where
  "ToLower s = map toLowerByte s"

definition isSpace :: "char \<Rightarrow> bool" where
  "isSpace c = ((of_char c :: nat) \<in> {9, 10, 11, 12, 13, 32})"

definition TrimSpace :: "string \<Rightarrow> string" where
  "TrimSpace s = rev (dropWhile isSpace (rev (dropWhile isSpace s)))"

fun HasPrefix :: "string \<Rightarrow> string \<Rightarrow> bool" where
  "HasPrefix s [] = True"
| "HasPrefix [] (p # ps) = False"
| "HasPrefix (c # s) (p # ps) = (c = p \<and> HasPrefix s ps)"

fun Contains :: "string \<Rightarrow> string \<Rightarrow> bool" where
  "Contains [] sub = (sub = [])"
| "Contains (c # s) sub = (HasPrefix (c # s) sub \<or> Contains s sub)"

text \<open>
  \<^verbatim>\<open>strings.ReplaceAll(s, old, new)\<close> replaces the non-overlapping occurrences of
  \<^verbatim>\<open>old\<close>, leftmost first. \<open>replaceFrom\<close> is the scan for a non-empty \<^verbatim>\<open>old\<close>; for
  an empty \<^verbatim>\<open>old\<close> Go puts \<^verbatim>\<open>new\<close> before every character and at the end.
\<close>

function replaceFrom :: "string \<Rightarrow> string \<Rightarrow> string \<Rightarrow> string" where
  "replaceFrom [] old new = []"
| "replaceFrom (c # s) old new =
     (if old \<noteq> [] \<and> HasPrefix (c # s) old
      then new @ replaceFrom (drop (length old) (c # s)) old new
      else c # replaceFrom s old new)"
  by pat_completeness auto
termination
  by (relation "measure (\<lambda>(s, old, new). length s)") (auto simp: neq_Nil_conv)

definition ReplaceAll :: "string \<Rightarrow> string \<Rightarrow> string \<Rightarrow> string" where
  "ReplaceAll s old new =
     (if old = [] then new @ concat (map (\<lambda>c. c # new) s) else replaceFrom s old new)"

text \<open>
  \<^verbatim>\<open>strings.Split(s, sep)\<close> for a separator of one byte, the only use in the source
  (\<^verbatim>\<open>strings.Split(s, "=")\<close>): the pieces between the separators, one more piece than
  there are separators.
\<close>

fun Split :: "string \<Rightarrow> char \<Rightarrow> string list" where
  "Split [] sep = [[]]"
| "Split (c # s) sep =
     (if c = sep then [] # Split s sep
      else (case Split s sep of p # ps \<Rightarrow> (c # p) # ps | [] \<Rightarrow> [[c]]))"

subsection \<open>normalizeSAN\<close>

definition isDigit :: "char \<Rightarrow> bool" where
  "isDigit c = (48 \<le> (of_char c :: nat) \<and> (of_char c :: nat) \<le> 57)"

text \<open>The loop \<^verbatim>\<open>for len(s) > 0 && s[0] >= '0' && s[0] <= '9' { s = s[1:] }\<close>.\<close>

fun stripLeadingDigits :: "string \<Rightarrow> string" where
  "stripLeadingDigits [] = []"
| "stripLeadingDigits (c # s) = (if isDigit c then stripLeadingDigits s else c # s)"

definition castling :: "string \<Rightarrow> string" where
  "castling s = ReplaceAll (ReplaceAll s ''0-0-0'' ''o-o-o'') ''0-0'' ''o-o''"

definition stripAnnotations :: "string \<Rightarrow> string" where
  "stripAnnotations s =
     ReplaceAll (ReplaceAll (ReplaceAll (ReplaceAll (ReplaceAll (ReplaceAll s
       ''+'' '''') ''#'' '''') ''!'' '''') ''?'' '''') ''!?'' '''') ''?!'' ''''"

definition stripDots :: "string \<Rightarrow> string" where
  "stripDots s = ReplaceAll (ReplaceAll (ReplaceAll s ''...'' '''') ''..'' '''') ''.'' ''''"

definition promotion :: "string \<Rightarrow> string" where
  "promotion s =
     (if Contains s ''=''
      then (let parts = Split s (CHR ''='')
            in if length parts = 2 then parts ! 0 @ parts ! 1 else s)
      else s)"

definition normalizeSAN :: "string \<Rightarrow> string" where
  "normalizeSAN s =
     ReplaceAll
       (promotion (stripLeadingDigits (stripDots (stripAnnotations
          (castling (ToLower (TrimSpace s)))))))
       '' '' ''''"

subsection \<open>gradeLine (flat mode)\<close>

record GradeLineResponse =
  Correct :: bool
  Score :: nat
  TicksMatched :: "nat list"
  DepthMatched :: nat
  EarliestMistake :: "nat option"
  BestLine :: "string list"
  RequiredTicks :: "string list"

text \<open>
  The variables the loop of gradeLine updates: \<^verbatim>\<open>response.Correct\<close> (the field
  \<open>responseCorrect\<close>) and the four locals
  \<^verbatim>\<open>ticksMatched\<close>, \<^verbatim>\<open>depthMatched\<close>, \<^verbatim>\<open>earliestMistake\<close>, \<^verbatim>\<open>bestLine\<close>.
\<close>

record gradeVars =
  responseCorrect :: bool
  ticksMatched :: "nat list"
  depthMatched :: nat
  earliestMistake :: "nat option"
  bestLine :: "string list"

definition markMistake :: "nat \<Rightarrow> gradeVars \<Rightarrow> gradeVars" where
  "markMistake i v =
     (if earliestMistake v = None then v\<lparr>earliestMistake := Some i\<rparr> else v)"

text \<open>
  The loop \<^verbatim>\<open>for i, typedMove := range typedSAN\<close>: the second argument is the index
  \<^verbatim>\<open>i\<close>, the third the typed moves from index \<^verbatim>\<open>i\<close> on. Both \<^verbatim>\<open>break\<close>s end the
  recursion. \<^verbatim>\<open>earliestMistake = &i\<close> points to the loop variable; the loop is left at
  once, so the pointer reads the index of the mistake.
\<close>

fun gradeLoop :: "Line list \<Rightarrow> nat \<Rightarrow> string list \<Rightarrow> gradeVars \<Rightarrow> gradeVars" where
  "gradeLoop lines i [] v = v"
| "gradeLoop lines i (typedMove # rest) v =
     (if i \<ge> length lines then markMistake i v
      else
        (let solutionMove = lines ! i;
             normalizedTyped = normalizeSAN typedMove;
             normalizedSolution = normalizeSAN (SAN solutionMove)
         in if normalizedTyped = normalizedSolution
            then gradeLoop lines (i + 1) rest
                   (v\<lparr>bestLine := bestLine v @ [SAN solutionMove],
                      depthMatched := i + 1,
                      responseCorrect := (if i = 0 then True else responseCorrect v),
                      ticksMatched :=
                        (if IsTick solutionMove then ticksMatched v @ [i]
                         else ticksMatched v)\<rparr>)
            else markMistake i v))"

definition gradeLine :: "Puzzle \<Rightarrow> string list \<Rightarrow> GradeLineResponse" where
  "gradeLine puzzle typedSAN =
     (let response = \<lparr>Correct = False, Score = 0, TicksMatched = [], DepthMatched = 0,
                       EarliestMistake = None, BestLine = [],
                       RequiredTicks = Ticks puzzle\<rparr>
      in if length typedSAN = 0 then response
         else
           (let v = gradeLoop (Lines (Solution puzzle)) 0 typedSAN
                      \<lparr>responseCorrect = False, ticksMatched = [], depthMatched = 0,
                       earliestMistake = None, bestLine = []\<rparr>
            in response\<lparr>Correct := responseCorrect v,
                        BestLine := bestLine v,
                        TicksMatched := ticksMatched v,
                        DepthMatched := depthMatched v,
                        EarliestMistake := earliestMistake v,
                        Score := (if responseCorrect v then 1 + length (ticksMatched v)
                                  else 0)\<rparr>))"

subsection \<open>gradeSolution (legacy branching mode)\<close>

text \<open>
  The closure \<^verbatim>\<open>dfs\<close> reads \<^verbatim>\<open>playedSAN\<close> and updates the captured variables
  \<^verbatim>\<open>correct\<close>, \<^verbatim>\<open>score\<close> and \<^verbatim>\<open>matchedLine\<close> of gradeSolution: the model passes
  the three as a triple and returns them with the closure's boolean result. The
  comparison is on the raw strings, as in the source.
\<close>

fun dfs :: "string list \<Rightarrow> Line list \<Rightarrow> nat \<Rightarrow> bool \<times> nat \<times> string list
              \<Rightarrow> bool \<times> (bool \<times> nat \<times> string list)" where
  "dfs playedSAN [] depth vars = (False, vars)"
| "dfs playedSAN (Line san children isTick # lines) depth (correct, score, matchedLine) =
     (if san = [] then dfs playedSAN lines depth (correct, score, matchedLine)
      else if depth < length playedSAN \<and> san = playedSAN ! depth
      then
        (let score = (if isTick then score + 1 else score);
             correct = (if depth = 0 then True else correct);
             matchedLine = (if depth < length matchedLine then matchedLine[depth := san]
                            else matchedLine @ [san])
         in if depth + 1 < length playedSAN \<and> length children > 0
            then (case dfs playedSAN children (depth + 1) (correct, score, matchedLine) of
                    (found, vars) \<Rightarrow>
                      if found then (True, vars) else dfs playedSAN lines depth vars)
            else if depth + 1 \<ge> length playedSAN then (True, (correct, score, matchedLine))
            else dfs playedSAN lines depth (correct, score, matchedLine))
      else dfs playedSAN lines depth (correct, score, matchedLine))"

definition gradeSolution :: "Puzzle \<Rightarrow> string list \<Rightarrow> bool \<times> nat \<times> string list" where
  "gradeSolution puzzle playedSAN =
     (if length playedSAN = 0 then (False, 0, [])
      else snd (dfs playedSAN (Lines (Solution puzzle)) 0 (False, 0, [])))"

text \<open>
  Two abbreviations for the body of \<^verbatim>\<open>dfs\<close>: the test that a node is not skipped and
  matches the played move at this depth, and the three assignments made at a match.
\<close>

definition matches :: "string list \<Rightarrow> nat \<Rightarrow> string \<Rightarrow> bool" where
  "matches playedSAN depth san =
     (san \<noteq> [] \<and> depth < length playedSAN \<and> san = playedSAN ! depth)"

definition recordMatch ::
  "nat \<Rightarrow> string \<Rightarrow> bool \<Rightarrow> bool \<times> nat \<times> string list \<Rightarrow> bool \<times> nat \<times> string list" where
  "recordMatch depth san isTick vars =
     (case vars of (correct, score, matchedLine) \<Rightarrow>
        (if depth = 0 then True else correct,
         if isTick then score + 1 else score,
         if depth < length matchedLine then matchedLine[depth := san]
         else matchedLine @ [san]))"

subsection \<open>saveProgress\<close>

text \<open>
  The table \<^verbatim>\<open>progress\<close> has \<^verbatim>\<open>UNIQUE(user_id, puzzle_id)\<close>, so it is a partial map from
  that pair to the other columns of the row (the row id is only read to learn whether the
  row exists). \<^verbatim>\<open>CURRENT_TIMESTAMP\<close> is the argument \<open>now\<close>. The column
  \<^verbatim>\<open>typed_json\<close> holds the typed moves themselves instead of their JSON text. A statement
  that fails changes nothing; \<open>getFails\<close> and \<open>execFails\<close> say whether the query and the
  insert or update fail for a reason of the store's own. The second component of the
  result says whether \<^verbatim>\<open>"Error saving progress"\<close> was logged. The parameters
  \<^verbatim>\<open>score\<close> and \<^verbatim>\<open>depthMatched\<close> of the source are \<open>newScore\<close> and \<open>newDepth\<close>.
\<close>

type_synonym timestamp = nat

record progressRow =
  attempts :: int
  score :: int
  solved_at :: "timestamp option"
  typed_json :: "string list"
  created_at :: timestamp
  updated_at :: timestamp

type_synonym progressTable = "string \<times> string \<rightharpoonup> progressRow"

definition selectProgress :: "bool \<Rightarrow> progressTable \<Rightarrow> string \<Rightarrow> string \<Rightarrow> progressRow option" where
  "selectProgress getFails db userID puzzleID =
     (if getFails then None else db (userID, puzzleID))"

definition insertProgress ::
  "bool \<Rightarrow> timestamp \<Rightarrow> string \<Rightarrow> string \<Rightarrow> int \<Rightarrow> string list \<Rightarrow> progressTable
     \<Rightarrow> progressTable \<times> bool" where
  "insertProgress execFails now userID puzzleID newScore typedJSON db =
     (if execFails \<or> db (userID, puzzleID) \<noteq> None then (db, True)
      else (db((userID, puzzleID) \<mapsto>
                 \<lparr>attempts = 1, score = newScore, solved_at = None,
                  typed_json = typedJSON, created_at = now, updated_at = now\<rparr>),
            False))"

definition updateProgress ::
  "bool \<Rightarrow> timestamp \<Rightarrow> string \<Rightarrow> string \<Rightarrow> int \<Rightarrow> string list \<Rightarrow> int \<Rightarrow> progressTable
     \<Rightarrow> progressTable \<times> bool" where
  "updateProgress execFails now userID puzzleID newScore typedJSON newDepth db =
     (if execFails then (db, True)
      else (case db (userID, puzzleID) of
              None \<Rightarrow> (db, False)
            | Some r \<Rightarrow>
                (db((userID, puzzleID) \<mapsto>
                      r\<lparr>attempts := attempts r + 1,
                        score := newScore,
                        typed_json := typedJSON,
                        solved_at := (if newDepth \<ge> 3 then Some now else solved_at r),
                        updated_at := now\<rparr>),
                 False)))"

definition saveProgress ::
  "bool \<Rightarrow> bool \<Rightarrow> timestamp \<Rightarrow> string \<Rightarrow> string \<Rightarrow> string list \<Rightarrow> int \<Rightarrow> int
     \<Rightarrow> progressTable \<Rightarrow> progressTable \<times> bool" where
  "saveProgress getFails execFails now userID puzzleID typedSAN newScore newDepth db =
     (let typedJSON = typedSAN
      in case selectProgress getFails db userID puzzleID of
           None \<Rightarrow> insertProgress execFails now userID puzzleID newScore typedJSON db
         | Some existingID \<Rightarrow>
             updateProgress execFails now userID puzzleID newScore typedJSON newDepth db)"

subsection \<open>updateDailyPlans\<close>

text \<open>
  Modelled from the spec: the type \<^verbatim>\<open>woodpecker.DailyPlan\<close> is not in the sources; the
  spec gives a plan an active flag, today's batch of puzzle ids and the time it was
  generated. updateDailyPlans assigns the field \<^verbatim>\<open>TodayBatch\<close> and stores the plan as
  JSON; the model stores the plan itself.
\<close>

record DailyPlan =
  Active :: bool
  TodayBatch :: "string list"
  GeneratedAt :: timestamp

record dailyPlanRow =
  user_id :: string
  daily_plan_json :: DailyPlan
  active :: bool
  plan_updated_at :: timestamp

type_synonym dailyPlans = "dailyPlanRow list"

text \<open>
  The methods \<^verbatim>\<open>GetOrCreateDailyPlan\<close> and \<^verbatim>\<open>BuildTodayBatch\<close> of
  \<^verbatim>\<open>woodpecker.Service\<close> are not in the sources either: they are parameters. Each
  returns \<open>None\<close> for an error, and the table as it has left it.
\<close>

record Service =
  GetOrCreateDailyPlan :: "string \<Rightarrow> dailyPlans \<Rightarrow> DailyPlan option \<times> dailyPlans"
  BuildTodayBatch :: "string \<Rightarrow> DailyPlan \<Rightarrow> dailyPlans \<Rightarrow> string list option \<times> dailyPlans"

text \<open>The lines that updateDailyPlans writes with \<^verbatim>\<open>log.Printf\<close>.\<close>

datatype logLine =
    ErrorGettingUsers
  | ErrorGettingPlan string
  | ErrorBuildingBatch string
  | ErrorUpdatingPlan string
  | UpdatedPlan string nat

fun logUser :: "logLine \<Rightarrow> string option" where
  "logUser ErrorGettingUsers = None"
| "logUser (ErrorGettingPlan u) = Some u"
| "logUser (ErrorBuildingBatch u) = Some u"
| "logUser (ErrorUpdatingPlan u) = Some u"
| "logUser (UpdatedPlan u n) = Some u"

text \<open>\<^verbatim>\<open>SELECT DISTINCT user_id FROM daily_plans WHERE active = 1\<close>, in the order of the table.\<close>

definition selectActiveUsers :: "dailyPlans \<Rightarrow> string list" where
  "selectActiveUsers db = remdups (map user_id (filter active db))"

text \<open>
  \<^verbatim>\<open>UPDATE daily_plans SET daily_plan_json = ?, updated_at = CURRENT_TIMESTAMP
  WHERE user_id = ? AND active = 1\<close>.
\<close>

definition updatePlanRows :: "timestamp \<Rightarrow> DailyPlan \<Rightarrow> string \<Rightarrow> dailyPlans \<Rightarrow> dailyPlans" where
  "updatePlanRows now planJSON userID db =
     map (\<lambda>r. if user_id r = userID \<and> active r
              then r\<lparr>daily_plan_json := planJSON, plan_updated_at := now\<rparr> else r) db"

text \<open>
  The body of the loop over \<^verbatim>\<open>userIDs\<close>, on the table and the log; each
  \<^verbatim>\<open>continue\<close> returns from the body. \<open>execFails userID\<close> says whether the update of
  that user's row fails.
\<close>

definition updateUserPlan ::
  "Service \<Rightarrow> (string \<Rightarrow> bool) \<Rightarrow> timestamp \<Rightarrow> string \<Rightarrow> dailyPlans \<times> logLine list
     \<Rightarrow> dailyPlans \<times> logLine list" where
  "updateUserPlan service execFails now userID st =
     (case GetOrCreateDailyPlan service userID (fst st) of
        (None, db1) \<Rightarrow> (db1, snd st @ [ErrorGettingPlan userID])
      | (Some plan, db1) \<Rightarrow>
          (case BuildTodayBatch service userID plan db1 of
             (None, db2) \<Rightarrow> (db2, snd st @ [ErrorBuildingBatch userID])
           | (Some todayBatch, db2) \<Rightarrow>
               (let planJSON = plan\<lparr>TodayBatch := todayBatch\<rparr>
                in if execFails userID then (db2, snd st @ [ErrorUpdatingPlan userID])
                   else (updatePlanRows now planJSON userID db2,
                         snd st @ [UpdatedPlan userID (length todayBatch)]))))"

fun sweepUsers ::
  "Service \<Rightarrow> (string \<Rightarrow> bool) \<Rightarrow> timestamp \<Rightarrow> string list \<Rightarrow> dailyPlans \<times> logLine list
     \<Rightarrow> dailyPlans \<times> logLine list" where
  "sweepUsers service execFails now [] st = st"
| "sweepUsers service execFails now (userID # userIDs) st =
     sweepUsers service execFails now userIDs (updateUserPlan service execFails now userID st)"

definition sweepList :: "dailyPlans \<Rightarrow> string list" where
  "sweepList db =
     (let userIDs = selectActiveUsers db
      in if length userIDs = 0 then [''default_user''] else userIDs)"

definition updateDailyPlans ::
  "Service \<Rightarrow> bool \<Rightarrow> (string \<Rightarrow> bool) \<Rightarrow> timestamp \<Rightarrow> dailyPlans
     \<Rightarrow> dailyPlans \<times> logLine list" where
  "updateDailyPlans service selectFails execFails now db =
     (if selectFails then (db, [ErrorGettingUsers])
      else sweepUsers service execFails now (sweepList db) (db, []))"

subsection \<open>Notions used to state the properties\<close>

text \<open>The first typed move matches the first solution move after normalisation.\<close>

definition firstMoveMatches :: "Line list \<Rightarrow> string list \<Rightarrow> bool" where
  "firstMoveMatches lines typedSAN =
     (case (typedSAN, lines) of
        (t # _, l # _) \<Rightarrow> normalizeSAN t = normalizeSAN (SAN l)
      | _ \<Rightarrow> False)"

text \<open>
  The branching-mode grade as the specification words it: at each depth the first sibling
  with a non-empty move equal to the typed move is taken, and the walk goes on in its
  children only. \<open>firstMatchPath\<close> is the path of nodes taken, \<open>firstPathGrade\<close> the
  grade that reflects this path alone.
\<close>

fun firstMatchPath :: "Line list \<Rightarrow> string list \<Rightarrow> Line list" where
  "firstMatchPath lines [] = []"
| "firstMatchPath lines (t # ts) =
     (case find (\<lambda>l. SAN l \<noteq> [] \<and> SAN l = t) lines of
        None \<Rightarrow> []
      | Some l \<Rightarrow> l # firstMatchPath (Children l) ts)"

definition firstPathGrade :: "Line list \<Rightarrow> string list \<Rightarrow> bool \<times> nat \<times> string list" where
  "firstPathGrade lines playedSAN =
     (let path = firstMatchPath lines playedSAN
      in (path \<noteq> [], length (filter IsTick path), map SAN path))"

text \<open>
  The length of the longest prefix of the played moves that some path of the forest
  spells, through nodes with a non-empty move.
\<close>

fun spelled :: "Line list \<Rightarrow> string list \<Rightarrow> nat" where
  "spelled lines [] = 0"
| "spelled lines (t # ts) =
     foldr (\<lambda>l n. if SAN l \<noteq> [] \<and> SAN l = t then max (Suc (spelled (Children l) ts)) n else n)
       lines 0"

text \<open>The captured variables after the nodes of a path, entered at \<open>depth\<close>, were recorded.\<close>

definition addPath ::
  "nat \<Rightarrow> Line list \<Rightarrow> bool \<times> nat \<times> string list \<Rightarrow> bool \<times> nat \<times> string list" where
  "addPath depth path vars =
     (case vars of (c, n, m) \<Rightarrow>
        (c \<or> (depth = 0 \<and> path \<noteq> []), n + length (filter IsTick path), m @ map SAN path))"

text \<open>No two siblings carry the same non-empty move, anywhere in the forest.\<close>

fun uniqueSiblings :: "Line list \<Rightarrow> bool" where
  "uniqueSiblings [] = True"
| "uniqueSiblings (Line san children isTick # lines) =
     ((san = [] \<or> san \<notin> SAN ` set lines) \<and> uniqueSiblings children \<and> uniqueSiblings lines)"

text \<open>
  A string of ASCII bytes, and the three conditions under which a normalised string is
  left as it is by a second normalisation: no white space at its ends, no occurrence of
  \<^verbatim>\<open>0-0\<close>, no digit at its start.
\<close>

definition isASCII :: "string \<Rightarrow> bool" where
  "isASCII s = list_all (\<lambda>c. (of_char c :: nat) < 128) s"

definition stableSAN :: "string \<Rightarrow> bool" where
  "stableSAN s = (TrimSpace s = s \<and> \<not> Contains s ''0-0'' \<and> stripLeadingDigits s = s)"

text \<open>
  What every result of normalizeSAN satisfies: no upper-case letter, no annotation
  character, no dot, no space, and not exactly one equals sign. \<open>zeros\<close> counts the
  digits 0 of a string.
\<close>

definition isAnnotation :: "char \<Rightarrow> bool" where
  "isAnnotation c = (c = CHR ''+'' \<or> c = CHR ''#'' \<or> c = CHR ''!'' \<or> c = CHR ''?'')"

definition settled :: "string \<Rightarrow> bool" where
  "settled s =
     (list_all (\<lambda>c. \<not> isUpper c \<and> \<not> isAnnotation c \<and> c \<noteq> CHR ''.'' \<and> c \<noteq> CHR '' '') s \<and>
      count_list s (CHR ''='') \<noteq> 1)"

definition zeros :: "string \<Rightarrow> nat" where
  "zeros s = length (filter (\<lambda>c. c = CHR ''0'') s)"

subsection \<open>Concrete inputs\<close>

text \<open>The flat solution e4 (tick), e5, Nf3 (tick).\<close>

definition flatPuzzle :: Puzzle where
  "flatPuzzle =
     \<lparr>ID = ''wpm_easy_001'', Difficulty = ''easy'', FEN = '''',
      Solution = \<lparr>Lines = [Line ''e4'' [] True, Line ''e5'' [] False, Line ''Nf3'' [] True],
                  AcceptedAlternatives = []\<rparr>,
      Ticks = [''e4'', ''Nf3'']\<rparr>"

text \<open>A flat solution whose only node has no move.\<close>

definition emptyMovePuzzle :: Puzzle where
  "emptyMovePuzzle =
     \<lparr>ID = ''wpm_easy_002'', Difficulty = ''easy'', FEN = '''',
      Solution = \<lparr>Lines = [Line '''' [] True], AcceptedAlternatives = []\<rparr>,
      Ticks = []\<rparr>"

text \<open>
  Two authored lines that open with the same move: e4 e5 and e4 c5, every node but e5 a
  tick.
\<close>

definition twoLinesPuzzle :: Puzzle where
  "twoLinesPuzzle =
     \<lparr>ID = ''wpm_easy_003'', Difficulty = ''easy'', FEN = '''',
      Solution = \<lparr>Lines = [Line ''e4'' [Line ''e5'' [] False] True,
                           Line ''e4'' [Line ''c5'' [] True] True],
                  AcceptedAlternatives = []\<rparr>,
      Ticks = []\<rparr>"

text \<open>The same forest with the two lines merged under one opening move.\<close>

definition mergedPuzzle :: Puzzle where
  "mergedPuzzle =
     \<lparr>ID = ''wpm_easy_004'', Difficulty = ''easy'', FEN = '''',
      Solution = \<lparr>Lines = [Line ''e4'' [Line ''e5'' [] False, Line ''c5'' [] True] True],
                  AcceptedAlternatives = []\<rparr>,
      Ticks = []\<rparr>"
text \<open>A progress table with one row, solved at time 100 on its third attempt.\<close>

definition solvedRow :: progressRow where
  "solvedRow =
     \<lparr>attempts = 3, score = 4, solved_at = Some 100, typed_json = [''e4'', ''e5'', ''Nf3''],
      created_at = 50, updated_at = 100\<rparr>"

definition solvedTable :: progressTable where
  "solvedTable = Map.empty((''default_user'', ''wpm_easy_001'') \<mapsto> solvedRow)"

text \<open>
  Two users with an active plan, and a service that fails to get the plan of the first
  of them.
\<close>

definition twoPlans :: dailyPlans where
  "twoPlans =
     [\<lparr>user_id = ''ann'',
       daily_plan_json = \<lparr>Active = True, TodayBatch = [], GeneratedAt = 0\<rparr>,
       active = True, plan_updated_at = 0\<rparr>,
      \<lparr>user_id = ''bob'',
       daily_plan_json = \<lparr>Active = True, TodayBatch = [], GeneratedAt = 0\<rparr>,
       active = True, plan_updated_at = 0\<rparr>]"

definition failingService :: Service where
  "failingService =
     \<lparr>GetOrCreateDailyPlan =
        (\<lambda>userID db.
           if userID = ''ann'' then (None, db)
           else (case find (\<lambda>r. user_id r = userID \<and> active r) db of
                   None \<Rightarrow> (None, db)
                 | Some r \<Rightarrow> (Some (daily_plan_json r), db))),
      BuildTodayBatch = (\<lambda>userID plan db. (Some [''wpm_easy_001''], db))\<rparr>"


section \<open>Properties of gradeLine\<close>

lemma markMistake_fields [simp]:
  "responseCorrect (markMistake i v) = responseCorrect v"
  "ticksMatched (markMistake i v) = ticksMatched v"
  "depthMatched (markMistake i v) = depthMatched v"
  "bestLine (markMistake i v) = bestLine v"
  by (simp_all add: markMistake_def)

lemma markMistake_earliest:
  "earliestMistake (markMistake i v) =
     (case earliestMistake v of None \<Rightarrow> Some i | Some m \<Rightarrow> Some m)"
  by (simp add: markMistake_def split: option.splits)

lemma gradeLoop_correct_later:
  "0 < i \<Longrightarrow> responseCorrect (gradeLoop lines i typed v) = responseCorrect v"
  by (induction lines i typed v rule: gradeLoop.induct) (simp_all add: Let_def)

lemma gradeLoop_correct_first:
  "responseCorrect (gradeLoop lines 0 typed v) =
     (firstMoveMatches lines typed \<or> responseCorrect v)"
proof (cases typed)
  case Nil
  then show ?thesis by (simp add: firstMoveMatches_def)
next
  case (Cons t rest)
  show ?thesis
  proof (cases lines)
    case Nil
    with Cons show ?thesis by (simp add: firstMoveMatches_def)
  next
    case (Cons l ls)
    with \<open>typed = t # rest\<close> show ?thesis
      by (simp add: firstMoveMatches_def Let_def gradeLoop_correct_later)
  qed
qed

lemma gradeLoop_consistent:
  "depthMatched v = i \<Longrightarrow> length (bestLine v) = i \<Longrightarrow> earliestMistake v = None \<Longrightarrow>
   length (bestLine (gradeLoop lines i typed v)) = depthMatched (gradeLoop lines i typed v) \<and>
   (\<forall>m. earliestMistake (gradeLoop lines i typed v) = Some m \<longrightarrow>
        m = depthMatched (gradeLoop lines i typed v))"
  by (induction lines i typed v rule: gradeLoop.induct)
     (auto simp: Let_def markMistake_earliest)

lemma gradeLoop_prefix:
  "i + k \<le> length lines \<Longrightarrow> depthMatched v = i \<Longrightarrow> earliestMistake v = None \<Longrightarrow>
   depthMatched (gradeLoop lines i (map SAN (take k (drop i lines))) v) = i + k \<and>
   earliestMistake (gradeLoop lines i (map SAN (take k (drop i lines))) v) = None"
proof (induction k arbitrary: i v)
  case 0
  then show ?case by simp
next
  case (Suc k)
  from Suc.prems have lt: "i < length lines" by simp
  then have dr: "drop i lines = lines ! i # drop (Suc i) lines"
    by (simp add: Cons_nth_drop_Suc)
  let ?v = "v\<lparr>bestLine := bestLine v @ [SAN (lines ! i)], depthMatched := Suc i,
              responseCorrect := (if i = 0 then True else responseCorrect v),
              ticksMatched := (if IsTick (lines ! i) then ticksMatched v @ [i]
                               else ticksMatched v)\<rparr>"
  have "Suc i + k \<le> length lines" "depthMatched ?v = Suc i" "earliestMistake ?v = None"
    using Suc.prems by simp_all
  from Suc.IH [OF this] show ?case
    using lt by (simp add: dr Let_def)
qed

text \<open>
  C1. For every puzzle and every typed move list, gradeLine returns score 0 when correct
  is false and score 1 + (number of entries of ticksMatched) otherwise; correct is true
  exactly when there is a first typed move and a first solution move and the two are
  equal after normalisation.
\<close>

theorem gradeLine_score:
  "Score (gradeLine puzzle typedSAN) =
     (if Correct (gradeLine puzzle typedSAN)
      then 1 + length (TicksMatched (gradeLine puzzle typedSAN)) else 0) \<and>
   Correct (gradeLine puzzle typedSAN) =
     firstMoveMatches (Lines (Solution puzzle)) typedSAN"
  by (cases typedSAN)
     (simp_all add: gradeLine_def Let_def gradeLoop_correct_first firstMoveMatches_def
        del: gradeLoop.simps)

theorem gradeLine_score_witness:
  "Correct (gradeLine flatPuzzle [''E4+'', ''d5'']) \<and>
   TicksMatched (gradeLine flatPuzzle [''E4+'', ''d5'']) = [0] \<and>
   Score (gradeLine flatPuzzle [''E4+'', ''d5'']) = 2"
proof -
  have t: "TicksMatched (gradeLine flatPuzzle [''E4+'', ''d5'']) = [0]"
    by code_simp
  have f: "firstMoveMatches (Lines (Solution flatPuzzle)) [''E4+'', ''d5'']"
    by code_simp
  from gradeLine_score [of flatPuzzle "[''E4+'', ''d5'']"] t f show ?thesis
    by simp
qed

text \<open>
  C2. When the typed list is, string for string, the first k moves of a flat solution
  (k at most the length of the solution), gradeLine returns depthMatched = k and
  earliestMistake = nil.
\<close>

theorem gradeLine_exact_prefix:
  assumes "k \<le> length (Lines (Solution puzzle))"
  shows "DepthMatched (gradeLine puzzle (map SAN (take k (Lines (Solution puzzle))))) = k \<and>
         EarliestMistake (gradeLine puzzle (map SAN (take k (Lines (Solution puzzle))))) = None"
proof (cases "k = 0 \<or> Lines (Solution puzzle) = []")
  case True
  with assms show ?thesis by (auto simp: gradeLine_def)
next
  case False
  let ?v0 = "\<lparr>responseCorrect = False, ticksMatched = [], depthMatched = 0,
              earliestMistake = None, bestLine = []\<rparr>"
  have "0 + k \<le> length (Lines (Solution puzzle))" "depthMatched ?v0 = 0"
    "earliestMistake ?v0 = None"
    using assms by simp_all
  from gradeLoop_prefix [OF this] False show ?thesis
    by (simp add: gradeLine_def Let_def del: gradeLoop.simps)
qed

theorem gradeLine_exact_prefix_witness:
  "(2::nat) \<le> length (Lines (Solution flatPuzzle)) \<and>
   map SAN (take 2 (Lines (Solution flatPuzzle))) = [''e4'', ''e5''] \<and>
   DepthMatched (gradeLine flatPuzzle [''e4'', ''e5'']) = 2 \<and>
   EarliestMistake (gradeLine flatPuzzle [''e4'', ''e5'']) = None"
proof -
  have h: "(2::nat) \<le> length (Lines (Solution flatPuzzle))"
    by (simp add: flatPuzzle_def)
  have m: "map SAN (take 2 (Lines (Solution flatPuzzle))) = [''e4'', ''e5'']"
    by (simp add: flatPuzzle_def)
  from gradeLine_exact_prefix [OF h] h m show ?thesis
    by simp
qed

text \<open>
  C10. Every result of gradeLine is consistent: depthMatched is the length of bestLine,
  and whenever earliestMistake is set, its value is depthMatched.
\<close>

theorem gradeLine_consistent:
  "DepthMatched (gradeLine puzzle typedSAN) = length (BestLine (gradeLine puzzle typedSAN)) \<and>
   (\<forall>m. EarliestMistake (gradeLine puzzle typedSAN) = Some m \<longrightarrow>
        m = DepthMatched (gradeLine puzzle typedSAN))"
proof (cases typedSAN)
  case Nil
  then show ?thesis by (simp add: gradeLine_def)
next
  case (Cons t rest)
  let ?v0 = "\<lparr>responseCorrect = False, ticksMatched = [], depthMatched = 0,
              earliestMistake = None, bestLine = []\<rparr>"
  have "depthMatched ?v0 = 0" "length (bestLine ?v0) = 0" "earliestMistake ?v0 = None"
    by simp_all
  from gradeLoop_consistent [OF this, of "Lines (Solution puzzle)" typedSAN] Cons
  show ?thesis
    by (simp add: gradeLine_def Let_def del: gradeLoop.simps)
qed

theorem gradeLine_consistent_witness:
  "EarliestMistake (gradeLine flatPuzzle [''e4'', ''d5'']) = Some 1 \<and>
   DepthMatched (gradeLine flatPuzzle [''e4'', ''d5'']) = 1 \<and>
   length (BestLine (gradeLine flatPuzzle [''e4'', ''d5''])) = 1"
proof -
  have e: "EarliestMistake (gradeLine flatPuzzle [''e4'', ''d5'']) = Some 1"
    by code_simp
  from gradeLine_consistent [of flatPuzzle "[''e4'', ''d5'']"] e show ?thesis
    by simp
qed

section \<open>The empty typed list\<close>

text \<open>
  C7. In either mode a grading call with an empty typed move list returns the zero-value
  grade (correct false, score 0, every list empty, earliestMistake nil, matchedLine
  empty); both functions return a value on every input, there is no error result.
\<close>

theorem grade_empty_typed:
  "gradeLine puzzle [] =
     \<lparr>Correct = False, Score = 0, TicksMatched = [], DepthMatched = 0,
      EarliestMistake = None, BestLine = [], RequiredTicks = Ticks puzzle\<rparr> \<and>
   gradeSolution puzzle [] = (False, 0, [])"
  by (simp add: gradeLine_def gradeSolution_def)


section \<open>Properties of normalizeSAN\<close>


subsection \<open>Prefixes and occurrences\<close>

lemma HasPrefix_append: "HasPrefix s p \<Longrightarrow> s = p @ drop (length p) s"
  by (induction s p rule: HasPrefix.induct) simp_all

lemma HasPrefix_single: "HasPrefix (x # s) [c] = (x = c)"
  by simp

lemma Contains_Nil [simp]: "Contains s []"
  by (cases s) simp_all

lemma Contains_single: "Contains s [c] = (c \<in> set s)"
  by (induction s) auto

lemma Contains_set: "Contains s sub \<Longrightarrow> set sub \<subseteq> set s"
proof (induction s)
  case Nil
  then show ?case by simp
next
  case (Cons x s)
  show ?case
  proof (cases "HasPrefix (x # s) sub")
    case True
    from HasPrefix_append [OF this] have "set (x # s) = set sub \<union> set (drop (length sub) (x # s))"
      by (metis set_append)
    then show ?thesis by blast
  next
    case False
    with Cons show ?thesis by auto
  qed
qed

subsection \<open>ReplaceAll\<close>

lemma replaceFrom_no_occurrence:
  "\<not> Contains s old \<Longrightarrow> replaceFrom s old new = s"
  by (induction s old new rule: replaceFrom.induct) auto

lemma replaceFrom_delete_char: "replaceFrom s [c] [] = filter (\<lambda>x. x \<noteq> c) s"
  by (induction s) auto

lemma replaceFrom_filter:
  "\<forall>c \<in> set old. \<not> P c \<Longrightarrow> \<forall>c \<in> set new. \<not> P c \<Longrightarrow>
   filter P (replaceFrom s old new) = filter P s"
proof (induction s old new rule: replaceFrom.induct)
  case (1 old new)
  then show ?case by simp
next
  case (2 c s old new)
  show ?case
  proof (cases "old \<noteq> [] \<and> HasPrefix (c # s) old")
    case True
    then have split: "c # s = old @ drop (length old) (c # s)"
      using HasPrefix_append by blast
    have "filter P (c # s) = filter P old @ filter P (drop (length old) (c # s))"
      by (subst split) simp
    moreover have "filter P old = []" "filter P new = []"
      using "2.prems" by (simp_all add: filter_empty_conv)
    ultimately show ?thesis
      using True "2.IH"(1) "2.prems" by simp
  next
    case False
    then show ?thesis
      using "2.IH"(2) "2.prems" by auto
  qed
qed

lemma replaceFrom_set: "set (replaceFrom s old new) \<subseteq> set s \<union> set new"
proof (induction s old new rule: replaceFrom.induct)
  case (1 old new)
  then show ?case by simp
next
  case (2 c s old new)
  show ?case
  proof (cases "old \<noteq> [] \<and> HasPrefix (c # s) old")
    case True
    have "set (drop (length old) (c # s)) \<subseteq> set (c # s)"
      by (rule set_drop_subset)
    with True "2.IH"(1) show ?thesis by auto
  next
    case False
    with "2.IH"(2) show ?thesis by auto
  qed
qed

lemma replaceFrom_length:
  "length new = length old \<Longrightarrow> length (replaceFrom s old new) = length s"
proof (induction s old new rule: replaceFrom.induct)
  case (1 old new)
  then show ?case by simp
next
  case (2 c s old new)
  show ?case
  proof (cases "old \<noteq> [] \<and> HasPrefix (c # s) old")
    case True
    then have "c # s = old @ drop (length old) (c # s)"
      using HasPrefix_append by blast
    then have "length (c # s) = length old + length (drop (length old) (c # s))"
      by (metis length_append)
    with True "2.IH"(1) "2.prems" show ?thesis by simp
  next
    case False
    with "2.IH"(2) "2.prems" show ?thesis by auto
  qed
qed

subsection \<open>The steps of normalizeSAN as filters\<close>

lemma ReplaceAll_delete_char: "ReplaceAll s [c] [] = filter (\<lambda>x. x \<noteq> c) s"
  by (simp add: ReplaceAll_def replaceFrom_delete_char)

lemma ReplaceAll_absent:
  "old \<noteq> [] \<Longrightarrow> \<not> set old \<subseteq> set s \<Longrightarrow> ReplaceAll s old new = s"
proof -
  assume "old \<noteq> []" and "\<not> set old \<subseteq> set s"
  then have "\<not> Contains s old"
    using Contains_set [of s old] by blast
  with \<open>old \<noteq> []\<close> show ?thesis
    by (simp add: ReplaceAll_def replaceFrom_no_occurrence)
qed

lemma stripAnnotations_filter: "stripAnnotations s = filter (\<lambda>c. \<not> isAnnotation c) s"
proof -
  let ?t = "filter (\<lambda>x. x \<noteq> CHR ''?'') (filter (\<lambda>x. x \<noteq> CHR ''!'')
              (filter (\<lambda>x. x \<noteq> CHR ''#'') (filter (\<lambda>x. x \<noteq> CHR ''+'') s)))"
  have a: "ReplaceAll ?t ''!?'' '''' = ?t"
    by (rule ReplaceAll_absent) auto
  have b: "ReplaceAll ?t ''?!'' '''' = ?t"
    by (rule ReplaceAll_absent) auto
  have "stripAnnotations s = ?t"
    by (simp only: stripAnnotations_def ReplaceAll_delete_char a b)
  also have "\<dots> = filter (\<lambda>c. \<not> isAnnotation c) s"
    by (auto simp: isAnnotation_def intro: filter_cong)
  finally show ?thesis .
qed

lemma stripDots_filter: "stripDots s = filter (\<lambda>c. c \<noteq> CHR ''.'') s"
proof -
  have d: "filter (\<lambda>c. c \<noteq> CHR ''.'') (replaceFrom t old []) = filter (\<lambda>c. c \<noteq> CHR ''.'') t"
    if "set old \<subseteq> {CHR ''.''}" for t old
    using that by (intro replaceFrom_filter) auto
  show ?thesis
    by (simp add: stripDots_def ReplaceAll_def replaceFrom_delete_char d)
qed

lemma stripLeadingDigits_dropWhile: "stripLeadingDigits s = dropWhile isDigit s"
  by (induction s) simp_all

subsection \<open>Split and promotion\<close>

lemma Split_nonempty: "Split s c \<noteq> []"
  by (induction s) (auto split: list.splits)

lemma Split_length: "length (Split s c) = Suc (count_list s c)"
  by (induction s) (auto split: list.splits simp: Split_nonempty)

lemma Split_concat: "concat (Split s c) = filter (\<lambda>x. x \<noteq> c) s"
  by (induction s) (auto split: list.splits simp: Split_nonempty)

lemma two_parts: "length ps = 2 \<Longrightarrow> ps ! 0 @ ps ! 1 = concat ps"
  by (cases ps; cases "tl ps") auto

lemma promotion_filter:
  "promotion s =
     (if count_list s (CHR ''='') = 1 then filter (\<lambda>x. x \<noteq> CHR ''='') s else s)"
proof (cases "count_list s (CHR ''='') = 1")
  case True
  then have "CHR ''='' \<in> set s"
    by (metis count_list_0_iff zero_neq_one)
  moreover from True have "length (Split s (CHR ''='')) = 2"
    by (simp add: Split_length)
  then have "Split s (CHR ''='') ! 0 @ Split s (CHR ''='') ! 1 = filter (\<lambda>x. x \<noteq> CHR ''='') s"
    by (simp only: two_parts Split_concat)
  ultimately show ?thesis
    using True by (simp add: promotion_def Contains_single Split_length Let_def)
next
  case False
  then show ?thesis
    by (simp add: promotion_def Split_length Let_def)
qed

lemma count_list_filter: "count_list s c = length (filter (\<lambda>x. x = c) s)"
  by (induction s) auto

lemma promotion_count: "count_list (promotion s) (CHR ''='') \<noteq> 1"
  by (simp add: promotion_filter count_list_filter)

lemma promotion_set: "set (promotion s) \<subseteq> set s"
  by (auto simp: promotion_filter)

subsection \<open>dropWhile, TrimSpace, ToLower\<close>

lemma dropWhile_length_eq: "length (dropWhile P s) = length s \<Longrightarrow> dropWhile P s = s"
proof -
  assume l: "length (dropWhile P s) = length s"
  have "length (takeWhile P s) + length (dropWhile P s) = length s"
    by (metis length_append takeWhile_dropWhile_id)
  with l have "takeWhile P s = []" by simp
  then show ?thesis
    by (metis append_Nil takeWhile_dropWhile_id)
qed

lemma dropWhile_filter:
  "\<forall>c. Q c \<longrightarrow> \<not> P c \<Longrightarrow> filter P (dropWhile Q s) = filter P s"
  by (induction s) auto

lemma TrimSpace_set: "set (TrimSpace s) \<subseteq> set s"
proof
  fix c
  assume "c \<in> set (TrimSpace s)"
  then have "c \<in> set (dropWhile isSpace (rev (dropWhile isSpace s)))"
    by (simp add: TrimSpace_def)
  then have "c \<in> set (dropWhile isSpace s)"
    using set_dropWhileD by fastforce
  then show "c \<in> set s"
    by (rule set_dropWhileD)
qed

lemma TrimSpace_length: "length (TrimSpace s) \<le> length s"
proof -
  have "length (TrimSpace s) \<le> length (dropWhile isSpace s)"
    using length_dropWhile_le [of isSpace "rev (dropWhile isSpace s)"]
    by (simp add: TrimSpace_def)
  also have "\<dots> \<le> length s"
    by (rule length_dropWhile_le)
  finally show ?thesis .
qed

lemma TrimSpace_length_eq: "length (TrimSpace s) = length s \<Longrightarrow> TrimSpace s = s"
proof -
  assume l: "length (TrimSpace s) = length s"
  have a: "length (TrimSpace s) \<le> length (dropWhile isSpace s)"
    using length_dropWhile_le [of isSpace "rev (dropWhile isSpace s)"]
    by (simp add: TrimSpace_def)
  have b: "length (dropWhile isSpace s) \<le> length s"
    by (rule length_dropWhile_le)
  from l a b have "length (dropWhile isSpace s) = length s" by simp
  then have front: "dropWhile isSpace s = s"
    by (rule dropWhile_length_eq)
  with l have "length (dropWhile isSpace (rev s)) = length (rev s)"
    by (simp add: TrimSpace_def)
  then have "dropWhile isSpace (rev s) = rev s"
    by (rule dropWhile_length_eq)
  with front show ?thesis
    by (simp add: TrimSpace_def)
qed

lemma TrimSpace_filter:
  assumes "\<forall>c. isSpace c \<longrightarrow> \<not> P c"
  shows "filter P (TrimSpace s) = filter P s"
proof -
  have "filter P (TrimSpace s) = rev (filter P (dropWhile isSpace (rev (dropWhile isSpace s))))"
    by (simp add: TrimSpace_def rev_filter)
  also have "\<dots> = rev (filter P (rev (dropWhile isSpace s)))"
    using assms by (simp add: dropWhile_filter)
  also have "\<dots> = filter P (dropWhile isSpace s)"
    by (simp add: rev_filter)
  also have "\<dots> = filter P s"
    using assms by (simp add: dropWhile_filter)
  finally show ?thesis .
qed

lemma toLowerByte_not_upper: "\<not> isUpper (toLowerByte c)"
  by (simp add: toLowerByte_def isUpper_def)

lemma ToLower_not_upper: "c \<in> set (ToLower s) \<Longrightarrow> \<not> isUpper c"
  by (auto simp: ToLower_def toLowerByte_not_upper)

lemma ToLower_id: "\<forall>c \<in> set s. \<not> isUpper c \<Longrightarrow> ToLower s = s"
  by (simp add: ToLower_def toLowerByte_def map_idI)

subsection \<open>castling\<close>

lemma castling_set: "set (castling s) \<subseteq> set s \<union> {CHR ''o'', CHR ''-''}"
proof -
  have "set (castling s) \<subseteq> set (replaceFrom s ''0-0-0'' ''o-o-o'') \<union> set ''o-o''"
    unfolding castling_def ReplaceAll_def
    using replaceFrom_set [of "replaceFrom s ''0-0-0'' ''o-o-o''" "''0-0''" "''o-o''"]
    by simp
  also have "\<dots> \<subseteq> (set s \<union> set ''o-o-o'') \<union> set ''o-o''"
    using replaceFrom_set [of s "''0-0-0''" "''o-o-o''"] by blast
  finally show ?thesis by auto
qed

lemma castling_length: "length (castling s) = length s"
  by (simp add: castling_def ReplaceAll_def replaceFrom_length)

lemma castling_filter:
  "\<not> P (CHR ''0'') \<Longrightarrow> \<not> P (CHR ''-'') \<Longrightarrow> \<not> P (CHR ''o'') \<Longrightarrow>
   filter P (castling s) = filter P s"
  by (simp add: castling_def ReplaceAll_def replaceFrom_filter)

lemma HasPrefix_shorter: "HasPrefix s (p @ q) \<Longrightarrow> HasPrefix s p"
  by (induction s p rule: HasPrefix.induct) auto

lemma Contains_shorter: "Contains s (p @ q) \<Longrightarrow> Contains s p"
proof (induction s)
  case Nil
  then show ?case by simp
next
  case (Cons x s)
  then show ?case
    using HasPrefix_shorter [of "x # s" p q] by auto
qed

lemma castling_no_occurrence: "\<not> Contains s ''0-0'' \<Longrightarrow> castling s = s"
proof -
  assume n: "\<not> Contains s ''0-0''"
  have "\<not> Contains s ''0-0-0''"
    using n Contains_shorter [of s "''0-0''" "''-0''"] by auto
  with n show ?thesis
    by (simp add: castling_def ReplaceAll_def replaceFrom_no_occurrence)
qed

lemma zeros_append: "zeros (p @ q) = zeros p + zeros q"
  by (simp add: zeros_def)

lemma replaceFrom_zeros_le:
  "zeros new = 0 \<Longrightarrow> zeros (replaceFrom s old new) \<le> zeros s"
proof (induction s old new rule: replaceFrom.induct)
  case (1 old new)
  then show ?case by simp
next
  case (2 c s old new)
  show ?case
  proof (cases "old \<noteq> [] \<and> HasPrefix (c # s) old")
    case True
    then have "c # s = old @ drop (length old) (c # s)"
      using HasPrefix_append by blast
    then have "zeros (c # s) = zeros old + zeros (drop (length old) (c # s))"
      by (metis zeros_append)
    with True "2.IH"(1) "2.prems" show ?thesis
      by (simp add: zeros_append)
  next
    case False
    with "2.IH"(2) "2.prems" show ?thesis
      by (auto simp: zeros_def)
  qed
qed

lemma replaceFrom_zeros_less:
  "zeros new = 0 \<Longrightarrow> 0 < zeros old \<Longrightarrow> Contains s old \<Longrightarrow>
   zeros (replaceFrom s old new) < zeros s"
proof (induction s old new rule: replaceFrom.induct)
  case (1 old new)
  then show ?case by (auto simp: zeros_def)
next
  case (2 c s old new)
  from "2.prems"(2) have ne: "old \<noteq> []" by (auto simp: zeros_def)
  show ?case
  proof (cases "HasPrefix (c # s) old")
    case True
    then have "c # s = old @ drop (length old) (c # s)"
      using HasPrefix_append by blast
    then have "zeros (c # s) = zeros old + zeros (drop (length old) (c # s))"
      by (metis zeros_append)
    moreover have "zeros (replaceFrom (drop (length old) (c # s)) old new)
                   \<le> zeros (drop (length old) (c # s))"
      using "2.prems"(1) by (rule replaceFrom_zeros_le)
    ultimately show ?thesis
      using True ne "2.prems" by (simp add: zeros_append)
  next
    case False
    with "2.prems"(3) have "Contains s old" by simp
    with "2.IH"(2) False "2.prems" have "zeros (replaceFrom s old new) < zeros s"
      by simp
    with False show ?thesis
      by (simp add: zeros_def)
  qed
qed

lemma castling_fixed: "castling s = s \<Longrightarrow> \<not> Contains s ''0-0''"
proof
  assume fixed: "castling s = s" and occ: "Contains s ''0-0''"
  let ?r = "replaceFrom s ''0-0-0'' ''o-o-o''"
  have le1: "zeros ?r \<le> zeros s"
    by (rule replaceFrom_zeros_le) (simp add: zeros_def)
  have le2: "zeros (replaceFrom ?r ''0-0'' ''o-o'') \<le> zeros ?r"
    by (rule replaceFrom_zeros_le) (simp add: zeros_def)
  from fixed have eq: "zeros (replaceFrom ?r ''0-0'' ''o-o'') = zeros s"
    by (simp add: castling_def ReplaceAll_def)
  with le1 le2 have same: "zeros ?r = zeros s" by simp
  have "\<not> Contains s ''0-0-0''"
  proof
    assume "Contains s ''0-0-0''"
    then have "zeros ?r < zeros s"
      by (intro replaceFrom_zeros_less) (simp_all add: zeros_def)
    with same show False by simp
  qed
  then have "?r = s" by (rule replaceFrom_no_occurrence)
  with occ have "zeros (replaceFrom ?r ''0-0'' ''o-o'') < zeros s"
    using replaceFrom_zeros_less [of "''o-o''" "''0-0''" s] by (simp add: zeros_def)
  with eq show False by simp
qed

subsection \<open>Normalised strings\<close>

lemma normalizeSAN_filters:
  "normalizeSAN s =
     filter (\<lambda>c. c \<noteq> CHR '' '')
       (promotion (dropWhile isDigit (filter (\<lambda>c. c \<noteq> CHR ''.'')
          (filter (\<lambda>c. \<not> isAnnotation c) (castling (ToLower (TrimSpace s)))))))"
  by (simp add: normalizeSAN_def ReplaceAll_delete_char stripLeadingDigits_dropWhile
        stripDots_filter stripAnnotations_filter)

lemma normalizeSAN_settled: "settled (normalizeSAN s)"
proof -
  let ?l = "ToLower (TrimSpace s)"
  let ?d = "dropWhile isDigit (filter (\<lambda>c. c \<noteq> CHR ''.'')
              (filter (\<lambda>c. \<not> isAnnotation c) (castling ?l)))"
  have chars: "\<not> isUpper c \<and> \<not> isAnnotation c \<and> c \<noteq> CHR ''.'' \<and> c \<noteq> CHR '' ''"
    if "c \<in> set (normalizeSAN s)" for c
  proof -
    from that have sp: "c \<noteq> CHR '' ''" and "c \<in> set (promotion ?d)"
      by (simp_all add: normalizeSAN_filters)
    then have "c \<in> set ?d"
      using promotion_set by blast
    then have "c \<in> set (filter (\<lambda>c. c \<noteq> CHR ''.'')
                 (filter (\<lambda>c. \<not> isAnnotation c) (castling ?l)))"
      by (rule set_dropWhileD)
    then have dot: "c \<noteq> CHR ''.''" and ann: "\<not> isAnnotation c" and "c \<in> set (castling ?l)"
      by simp_all
    then have "c \<in> set ?l \<or> c = CHR ''o'' \<or> c = CHR ''-''"
      using castling_set [of ?l] by blast
    then have "\<not> isUpper c"
      using ToLower_not_upper [of c "TrimSpace s"] by (auto simp: isUpper_def)
    with sp dot ann show ?thesis by simp
  qed
  have "filter (\<lambda>x. x = CHR ''='') (filter (\<lambda>c. c \<noteq> CHR '' '') (promotion ?d)) =
        filter (\<lambda>x. x = CHR ''='') (promotion ?d)"
    by (auto intro: filter_cong)
  then have "count_list (normalizeSAN s) (CHR ''='') = count_list (promotion ?d) (CHR ''='')"
    by (simp only: normalizeSAN_filters count_list_filter)
  then have "count_list (normalizeSAN s) (CHR ''='') \<noteq> 1"
    using promotion_count [of ?d] by simp
  with chars show ?thesis
    by (simp add: settled_def list_all_iff)
qed

lemma normalizeSAN_on_settled:
  assumes "settled s"
  shows "normalizeSAN s = stripLeadingDigits (castling (TrimSpace s))"
proof -
  let ?t = "TrimSpace s"
  let ?c = "castling ?t"
  let ?d = "dropWhile isDigit ?c"
  from assms have chars: "\<not> isUpper c \<and> \<not> isAnnotation c \<and> c \<noteq> CHR ''.'' \<and> c \<noteq> CHR '' ''"
    if "c \<in> set s" for c
    using that by (simp add: settled_def list_all_iff)
  from assms have eqs: "count_list s (CHR ''='') \<noteq> 1"
    by (simp add: settled_def)
  have t: "\<not> isUpper c \<and> \<not> isAnnotation c \<and> c \<noteq> CHR ''.'' \<and> c \<noteq> CHR '' ''"
    if "c \<in> set ?t" for c
    using that chars TrimSpace_set by blast
  then have low: "ToLower ?t = ?t"
    by (simp add: ToLower_id)
  have c: "\<not> isAnnotation c \<and> c \<noteq> CHR ''.'' \<and> c \<noteq> CHR '' ''"
    if "c \<in> set ?c" for c
  proof -
    from that have "c \<in> set ?t \<or> c = CHR ''o'' \<or> c = CHR ''-''"
      using castling_set [of ?t] by blast
    with t show ?thesis by (auto simp: isAnnotation_def)
  qed
  then have ann: "filter (\<lambda>c. \<not> isAnnotation c) ?c = ?c"
    and dot: "filter (\<lambda>c. c \<noteq> CHR ''.'') ?c = ?c"
    by (simp_all add: filter_id_conv)
  have "filter (\<lambda>x. x = CHR ''='') ?d = filter (\<lambda>x. x = CHR ''='') ?c"
    by (rule dropWhile_filter) (auto simp: isDigit_def)
  then have "count_list ?d (CHR ''='') = count_list ?c (CHR ''='')"
    by (simp only: count_list_filter)
  also have "\<dots> = count_list ?t (CHR ''='')"
    by (simp add: count_list_filter castling_filter)
  also have "filter (\<lambda>x. x = CHR ''='') ?t = filter (\<lambda>x. x = CHR ''='') s"
    by (rule TrimSpace_filter) (auto simp: isSpace_def)
  then have "count_list ?t (CHR ''='') = count_list s (CHR ''='')"
    by (simp only: count_list_filter)
  finally have "count_list ?d (CHR ''='') \<noteq> 1"
    using eqs by simp
  then have prom: "promotion ?d = ?d"
    by (simp add: promotion_filter)
  have "c \<noteq> CHR '' ''" if "c \<in> set ?d" for c
    using that c set_dropWhileD by fastforce
  then have sp: "filter (\<lambda>c. c \<noteq> CHR '' '') ?d = ?d"
    by (simp add: filter_id_conv)
  show ?thesis
    by (simp add: normalizeSAN_filters low ann dot prom sp stripLeadingDigits_dropWhile)
qed

lemma strip_castle_trim_fixed:
  "stripLeadingDigits (castling (TrimSpace s)) = s \<longleftrightarrow> stableSAN s"
proof
  assume "stableSAN s"
  then have "TrimSpace s = s" "castling s = s" "stripLeadingDigits s = s"
    by (simp_all add: stableSAN_def castling_no_occurrence)
  then show "stripLeadingDigits (castling (TrimSpace s)) = s"
    by simp
next
  assume fixed: "stripLeadingDigits (castling (TrimSpace s)) = s"
  have "length s = length (dropWhile isDigit (castling (TrimSpace s)))"
    using fixed by (simp add: stripLeadingDigits_dropWhile)
  also have "\<dots> \<le> length (castling (TrimSpace s))"
    by (rule length_dropWhile_le)
  finally have "length s \<le> length (TrimSpace s)"
    by (simp add: castling_length)
  with TrimSpace_length [of s] have "length (TrimSpace s) = length s"
    by simp
  then have trim: "TrimSpace s = s"
    by (rule TrimSpace_length_eq)
  with fixed have "length (dropWhile isDigit (castling s)) = length (castling s)"
    by (simp add: stripLeadingDigits_dropWhile castling_length)
  then have "dropWhile isDigit (castling s) = castling s"
    by (rule dropWhile_length_eq)
  with fixed trim have castle: "castling s = s"
    by (simp add: stripLeadingDigits_dropWhile)
  with fixed trim have "stripLeadingDigits s = s"
    by simp
  with trim castle show "stableSAN s"
    by (simp add: stableSAN_def castling_fixed)
qed

text \<open>
  C6, as the code has it. A second normalisation leaves the normalised form of an ASCII
  string as it is exactly when that form has no white space at its ends, no occurrence
  of \<^verbatim>\<open>0-0\<close> and no digit at its start. (The statement is for ASCII strings, on
  which the model of ToLower and TrimSpace is what Go computes.)
\<close>

theorem normalizeSAN_idempotent_iff:
  assumes "isASCII x"
  shows "(normalizeSAN (normalizeSAN x) = normalizeSAN x) = stableSAN (normalizeSAN x)"
  using normalizeSAN_on_settled [OF normalizeSAN_settled, of x]
    strip_castle_trim_fixed [of "normalizeSAN x"]
  by simp

theorem normalizeSAN_idempotent_iff_witness:
  "isASCII ''1. Nf3+'' \<and> normalizeSAN ''1. Nf3+'' = ''nf3'' \<and> stableSAN ''nf3'' \<and>
   normalizeSAN ''nf3'' = ''nf3''"
proof -
  have a: "isASCII ''1. Nf3+''" by code_simp
  have n: "normalizeSAN ''1. Nf3+'' = ''nf3''" by code_simp
  have s: "stableSAN ''nf3''" by code_simp
  from normalizeSAN_idempotent_iff [OF a] a n s show ?thesis by simp
qed

text \<open>
  C6 as stated fails: the input \<^verbatim>\<open>=1\<close> is normalised to \<^verbatim>\<open>1\<close> (the leading digits are
  stripped before the equals sign is removed), and \<^verbatim>\<open>1\<close> is normalised to the empty
  string.
\<close>

theorem normalizeSAN_not_idempotent_counterexample:
  "normalizeSAN ''=1'' = ''1'' \<and> normalizeSAN ''1'' = ''''"
  by code_simp

section \<open>Properties of saveProgress\<close>

lemma saveProgress_new_row:
  "db (userID, puzzleID) = None \<Longrightarrow>
   saveProgress False False now userID puzzleID typedSAN newScore newDepth db =
     (db((userID, puzzleID) \<mapsto>
           \<lparr>attempts = 1, score = newScore, solved_at = None, typed_json = typedSAN,
            created_at = now, updated_at = now\<rparr>), False)"
  by (simp add: saveProgress_def selectProgress_def insertProgress_def)

lemma saveProgress_old_row:
  "db (userID, puzzleID) = Some r \<Longrightarrow>
   saveProgress False False now userID puzzleID typedSAN newScore newDepth db =
     (db((userID, puzzleID) \<mapsto>
           r\<lparr>attempts := attempts r + 1, score := newScore, typed_json := typedSAN,
             solved_at := (if newDepth \<ge> 3 then Some now else solved_at r),
             updated_at := now\<rparr>), False)"
  by (simp add: saveProgress_def selectProgress_def updateProgress_def)

lemma saveProgress_store_fails:
  "db (userID, puzzleID) = Some r \<Longrightarrow> getFails \<or> execFails \<Longrightarrow>
   saveProgress getFails execFails now userID puzzleID typedSAN newScore newDepth db =
     (db, True)"
  by (auto simp: saveProgress_def selectProgress_def updateProgress_def insertProgress_def)

text \<open>
  C8. With the store working, the first call for a (user, puzzle) pair creates the row
  with attempts = 1 and the score and typed moves of the call; a call that finds the row
  adds one to attempts and overwrites score and lastTyped with the values of the call,
  whatever the stored score was. No other row changes.
\<close>

theorem saveProgress_upsert:
  "(db (userID, puzzleID) = None \<longrightarrow>
      (\<exists>r'. fst (saveProgress False False now userID puzzleID typedSAN newScore newDepth db)
               (userID, puzzleID) = Some r' \<and>
            attempts r' = 1 \<and> score r' = newScore \<and> typed_json r' = typedSAN)) \<and>
   (\<forall>r. db (userID, puzzleID) = Some r \<longrightarrow>
      (\<exists>r'. fst (saveProgress False False now userID puzzleID typedSAN newScore newDepth db)
               (userID, puzzleID) = Some r' \<and>
            attempts r' = attempts r + 1 \<and> score r' = newScore \<and> typed_json r' = typedSAN)) \<and>
   (\<forall>k. k \<noteq> (userID, puzzleID) \<longrightarrow>
      fst (saveProgress False False now userID puzzleID typedSAN newScore newDepth db) k = db k)"
proof (cases "db (userID, puzzleID)")
  case None
  then show ?thesis by (simp add: saveProgress_new_row)
next
  case (Some r)
  then show ?thesis by (simp add: saveProgress_old_row)
qed

theorem saveProgress_upsert_witness:
  "Map.empty (''default_user'', ''wpm_easy_001'') = (None :: progressRow option) \<and>
   (\<exists>r'. fst (saveProgress False False 7 ''default_user'' ''wpm_easy_001'' [''e4''] 2 1 Map.empty)
            (''default_user'', ''wpm_easy_001'') = Some r' \<and>
          attempts r' = 1 \<and> score r' = 2 \<and> typed_json r' = [''e4'']) \<and>
   solvedTable (''default_user'', ''wpm_easy_001'') = Some solvedRow \<and>
   score solvedRow = 4 \<and>
   (\<exists>r'. fst (saveProgress False False 200 ''default_user'' ''wpm_easy_001'' [''d4''] 0 0
              solvedTable) (''default_user'', ''wpm_easy_001'') = Some r' \<and>
          attempts r' = 4 \<and> score r' = 0 \<and> typed_json r' = [''d4''])"
proof -
  have n: "Map.empty (''default_user'', ''wpm_easy_001'') = (None :: progressRow option)"
    by simp
  have s: "solvedTable (''default_user'', ''wpm_easy_001'') = Some solvedRow"
    by (simp add: solvedTable_def)
  have a: "attempts solvedRow + 1 = 4" "score solvedRow = 4"
    by (simp_all add: solvedRow_def)
  from saveProgress_upsert [of Map.empty "''default_user''" "''wpm_easy_001''" 7 "[''e4'']" 2 1]
  have first: "\<exists>r'. fst (saveProgress False False 7 ''default_user'' ''wpm_easy_001'' [''e4''] 2 1
                      Map.empty) (''default_user'', ''wpm_easy_001'') = Some r' \<and>
                  attempts r' = 1 \<and> score r' = 2 \<and> typed_json r' = [''e4'']"
    using n by blast
  from saveProgress_upsert [of solvedTable "''default_user''" "''wpm_easy_001''" 200 "[''d4'']" 0 0]
  have "\<exists>r'. fst (saveProgress False False 200 ''default_user'' ''wpm_easy_001'' [''d4''] 0 0
                solvedTable) (''default_user'', ''wpm_easy_001'') = Some r' \<and>
            attempts r' = attempts solvedRow + 1 \<and> score r' = 0 \<and> typed_json r' = [''d4'']"
    using s by blast
  with a first n s show ?thesis by simp
qed

text \<open>
  C3, as the code has it. solvedAt is set only by the update of an existing row and only
  when depthMatched is at least 3, and such a call sets it to the current time whether
  or not it was set before. A call with depthMatched below 3 leaves solvedAt as it was,
  no call makes a set solvedAt null again, and the insert of a new row leaves it null.
\<close>

theorem saveProgress_solved_at:
  "(\<forall>r. db (userID, puzzleID) = Some r \<longrightarrow>
      (\<exists>r'. fst (saveProgress getFails execFails now userID puzzleID typedSAN newScore
                   newDepth db) (userID, puzzleID) = Some r' \<and>
            (solved_at r' = solved_at r \<or> (3 \<le> newDepth \<and> solved_at r' = Some now)) \<and>
            (solved_at r \<noteq> None \<longrightarrow> solved_at r' \<noteq> None) \<and>
            (3 \<le> newDepth \<and> \<not> getFails \<and> \<not> execFails \<longrightarrow> solved_at r' = Some now))) \<and>
   (db (userID, puzzleID) = None \<longrightarrow>
      (\<forall>r'. fst (saveProgress getFails execFails now userID puzzleID typedSAN newScore
                   newDepth db) (userID, puzzleID) = Some r' \<longrightarrow> solved_at r' = None))"
proof (intro conjI allI impI)
  fix r
  assume r: "db (userID, puzzleID) = Some r"
  show "\<exists>r'. fst (saveProgress getFails execFails now userID puzzleID typedSAN newScore
                newDepth db) (userID, puzzleID) = Some r' \<and>
            (solved_at r' = solved_at r \<or> (3 \<le> newDepth \<and> solved_at r' = Some now)) \<and>
            (solved_at r \<noteq> None \<longrightarrow> solved_at r' \<noteq> None) \<and>
            (3 \<le> newDepth \<and> \<not> getFails \<and> \<not> execFails \<longrightarrow> solved_at r' = Some now)"
  proof (cases "getFails \<or> execFails")
    case True
    with r have "saveProgress getFails execFails now userID puzzleID typedSAN newScore
                   newDepth db = (db, True)"
      by (simp add: saveProgress_store_fails)
    with r True show ?thesis by auto
  next
    case False
    then have "\<not> getFails" "\<not> execFails" by simp_all
    with r show ?thesis
      by (simp add: saveProgress_old_row)
  qed
next
  fix r'
  assume "db (userID, puzzleID) = None"
    and "fst (saveProgress getFails execFails now userID puzzleID typedSAN newScore
               newDepth db) (userID, puzzleID) = Some r'"
  then show "solved_at r' = None"
    by (auto simp: saveProgress_def selectProgress_def updateProgress_def
          insertProgress_def split: if_splits)
qed

theorem saveProgress_solved_at_witness:
  "solvedTable (''default_user'', ''wpm_easy_001'') = Some solvedRow \<and>
   solved_at solvedRow = Some 100 \<and>
   (\<exists>r'. fst (saveProgress False False 200 ''default_user'' ''wpm_easy_001'' [''d4''] 0 0
              solvedTable) (''default_user'', ''wpm_easy_001'') = Some r' \<and>
          solved_at r' = Some 100)"
proof -
  have s: "solvedTable (''default_user'', ''wpm_easy_001'') = Some solvedRow"
    by (simp add: solvedTable_def)
  have a: "solved_at solvedRow = Some 100"
    by (simp add: solvedRow_def)
  from saveProgress_solved_at [of solvedTable "''default_user''" "''wpm_easy_001''"
      False False 200 "[''d4'']" 0 0] s
  have "\<exists>r'. fst (saveProgress False False 200 ''default_user'' ''wpm_easy_001'' [''d4''] 0 0
                solvedTable) (''default_user'', ''wpm_easy_001'') = Some r' \<and>
            (solved_at r' = solved_at solvedRow \<or> ((3::int) \<le> 0 \<and> solved_at r' = Some 200))"
    by blast
  with s a show ?thesis by simp
qed

text \<open>
  C3 as stated fails: a row solved at time 100 and recorded again at time 200 with
  depthMatched = 3 has its solvedAt changed to 200.
\<close>

theorem saveProgress_solved_at_counterexample:
  "solvedTable (''default_user'', ''wpm_easy_001'') = Some solvedRow \<and>
   solved_at solvedRow = Some 100 \<and>
   fst (saveProgress False False 200 ''default_user'' ''wpm_easy_001'' [''e4'', ''e5'', ''Nf3''] 3 3
          solvedTable) (''default_user'', ''wpm_easy_001'') =
     Some (solvedRow\<lparr>attempts := 4, score := 3, solved_at := Some 200, updated_at := 200\<rparr>)"
  by (simp add: saveProgress_def selectProgress_def updateProgress_def solvedTable_def
        solvedRow_def)


section \<open>Properties of gradeSolution\<close>

lemma dfs_skip:
  "\<not> matches playedSAN depth san \<Longrightarrow>
   dfs playedSAN (Line san children isTick # lines) depth vars = dfs playedSAN lines depth vars"
  by (cases vars) (auto simp: matches_def)

lemma dfs_match:
  "matches playedSAN depth san \<Longrightarrow>
   dfs playedSAN (Line san children isTick # lines) depth vars =
     (if depth + 1 < length playedSAN \<and> children \<noteq> []
      then (if fst (dfs playedSAN children (depth + 1) (recordMatch depth san isTick vars))
            then (True, snd (dfs playedSAN children (depth + 1) (recordMatch depth san isTick vars)))
            else dfs playedSAN lines depth
                   (snd (dfs playedSAN children (depth + 1) (recordMatch depth san isTick vars))))
      else if length playedSAN \<le> depth + 1 then (True, recordMatch depth san isTick vars)
      else dfs playedSAN lines depth (recordMatch depth san isTick vars))"
proof -
  assume "matches playedSAN depth san"
  then have ne: "san \<noteq> []" and lt: "depth < length playedSAN"
    and eq: "playedSAN ! depth = san"
    unfolding matches_def by blast+
  obtain c n ml where vars: "vars = (c, n, ml)"
    by (cases vars)
  have len: "0 < length children \<longleftrightarrow> children \<noteq> []" by simp
  show ?thesis
    unfolding vars dfs.simps recordMatch_def
    by (simp only: ne lt eq len Let_def case_prod_beta prod.case fst_conv snd_conv
          if_False if_True simp_thms)
qed

lemma dfs_induct [case_names Nil Cons]:
  assumes nil: "\<And>playedSAN depth vars. P playedSAN [] depth vars"
    and cons: "\<And>playedSAN san children isTick lines depth vars.
      (\<not> matches playedSAN depth san \<Longrightarrow> P playedSAN lines depth vars) \<Longrightarrow>
      (matches playedSAN depth san \<Longrightarrow> depth + 1 < length playedSAN \<and> children \<noteq> [] \<Longrightarrow>
         P playedSAN children (depth + 1) (recordMatch depth san isTick vars)) \<Longrightarrow>
      (matches playedSAN depth san \<Longrightarrow> depth + 1 < length playedSAN \<and> children \<noteq> [] \<Longrightarrow>
         \<not> fst (dfs playedSAN children (depth + 1) (recordMatch depth san isTick vars)) \<Longrightarrow>
         P playedSAN lines depth
           (snd (dfs playedSAN children (depth + 1) (recordMatch depth san isTick vars)))) \<Longrightarrow>
      (matches playedSAN depth san \<Longrightarrow> \<not> (depth + 1 < length playedSAN \<and> children \<noteq> []) \<Longrightarrow>
         \<not> length playedSAN \<le> depth + 1 \<Longrightarrow>
         P playedSAN lines depth (recordMatch depth san isTick vars)) \<Longrightarrow>
      P playedSAN (Line san children isTick # lines) depth vars"
  shows "P playedSAN lines depth vars"
proof (induction playedSAN lines depth vars rule: dfs.induct)
  case (1 playedSAN depth vars)
  show ?case by (rule nil)
next
  case (2 playedSAN san children isTick lines depth c n ml)
  let ?vars = "(c, n, ml)"
  have rm: "recordMatch depth san isTick ?vars =
      (if depth = 0 then True else c, if isTick then n + 1 else n,
       if depth < length ml then ml[depth := san] else ml @ [san])"
    by (simp add: recordMatch_def)
  show ?case
  proof (rule cons)
    assume "\<not> matches playedSAN depth san"
    then show "P playedSAN lines depth ?vars"
      using "2.IH"(1) "2.IH"(5) unfolding matches_def by blast
  next
    assume m: "matches playedSAN depth san"
      and d: "depth + 1 < length playedSAN \<and> children \<noteq> []"
    from m have ne: "san \<noteq> []"
      and hit: "depth < length playedSAN \<and> san = playedSAN ! depth"
      unfolding matches_def by blast+
    from d have d': "depth + 1 < length playedSAN \<and> 0 < length children" by simp
    from "2.IH"(2) [OF ne hit refl refl refl d']
    show "P playedSAN children (depth + 1) (recordMatch depth san isTick ?vars)"
      by (simp only: rm)
  next
    assume m: "matches playedSAN depth san"
      and d: "depth + 1 < length playedSAN \<and> children \<noteq> []"
      and nf: "\<not> fst (dfs playedSAN children (depth + 1) (recordMatch depth san isTick ?vars))"
    from m have ne: "san \<noteq> []"
      and hit: "depth < length playedSAN \<and> san = playedSAN ! depth"
      unfolding matches_def by blast+
    from d have d': "depth + 1 < length playedSAN \<and> 0 < length children" by simp
    let ?r = "dfs playedSAN children (depth + 1) (recordMatch depth san isTick ?vars)"
    have pr: "(fst ?r, snd ?r) = dfs playedSAN children (depth + 1)
                (if depth = 0 then True else c, if isTick then n + 1 else n,
                 if depth < length ml then ml[depth := san] else ml @ [san])"
      by (simp only: rm prod.collapse)
    from "2.IH"(3) [OF ne hit refl refl refl d' pr nf]
    show "P playedSAN lines depth (snd ?r)" .
  next
    assume m: "matches playedSAN depth san"
      and d: "\<not> (depth + 1 < length playedSAN \<and> children \<noteq> [])"
      and l: "\<not> length playedSAN \<le> depth + 1"
    from m have ne: "san \<noteq> []"
      and hit: "depth < length playedSAN \<and> san = playedSAN ! depth"
      unfolding matches_def by blast+
    from d have d': "\<not> (depth + 1 < length playedSAN \<and> 0 < length children)" by simp
    from "2.IH"(4) [OF ne hit refl refl refl d' l]
    show "P playedSAN lines depth (recordMatch depth san isTick ?vars)"
      by (simp only: rm)
  qed
qed

text \<open>The branching mode does skip the nodes without a move: no entry of matchedLine is empty.\<close>

lemma recordMatch_nonempty:
  "san \<noteq> [] \<Longrightarrow> [] \<notin> set (snd (snd vars)) \<Longrightarrow>
   [] \<notin> set (snd (snd (recordMatch depth san isTick vars)))"
  by (cases vars) (auto simp: recordMatch_def dest: set_update_subset_insert [THEN subsetD])

lemma dfs_matched_nonempty:
  "[] \<notin> set (snd (snd vars)) \<Longrightarrow>
   [] \<notin> set (snd (snd (snd (dfs playedSAN lines depth vars))))"
proof (induction playedSAN lines depth vars rule: dfs_induct)
  case (Nil playedSAN depth vars)
  then show ?case by simp
next
  case (Cons playedSAN san children isTick lines depth vars)
  show ?case
  proof (cases "matches playedSAN depth san")
    case False
    with Cons show ?thesis by (simp add: dfs_skip)
  next
    case True
    then have "san \<noteq> []" unfolding matches_def by blast
    with Cons.prems have "[] \<notin> set (snd (snd (recordMatch depth san isTick vars)))"
      by (simp add: recordMatch_nonempty)
    with Cons.IH(2-4) True show ?thesis
      by (simp add: dfs_match)
  qed
qed

lemma gradeSolution_matched_nonempty:
  "[] \<notin> set (snd (snd (gradeSolution puzzle playedSAN)))"
  using dfs_matched_nonempty [of "(False, 0, [])" playedSAN "Lines (Solution puzzle)" 0]
  by (simp add: gradeSolution_def)

text \<open>When no sibling matches, the search changes nothing and fails.\<close>

lemma dfs_no_match:
  "\<forall>l \<in> set lines. \<not> matches playedSAN depth (SAN l) \<Longrightarrow>
   dfs playedSAN lines depth vars = (False, vars)"
proof (induction lines)
  case Nil
  then show ?case by simp
next
  case (Cons l lines)
  then show ?case by (cases l) (simp add: dfs_skip)
qed

lemma firstMatchPath_skip:
  "\<not> matches playedSAN depth (SAN l) \<Longrightarrow>
   firstMatchPath (l # lines) (drop depth playedSAN) = firstMatchPath lines (drop depth playedSAN)"
proof (cases "depth < length playedSAN")
  case True
  assume "\<not> matches playedSAN depth (SAN l)"
  with True show ?thesis
    by (auto simp: Cons_nth_drop_Suc [symmetric] matches_def)
next
  case False
  then show ?thesis by simp
qed

lemma firstMatchPath_match:
  "matches playedSAN depth (SAN l) \<Longrightarrow>
   firstMatchPath (l # lines) (drop depth playedSAN) =
     l # firstMatchPath (Children l) (drop (Suc depth) playedSAN)"
  by (auto simp: Cons_nth_drop_Suc [symmetric] matches_def)

lemma firstMatchPath_Nil: "firstMatchPath [] ts = []"
  by (cases ts) simp_all

lemma addPath_Nil: "addPath depth [] vars = vars"
  by (cases vars) (simp add: addPath_def)

lemma addPath_recordMatch:
  "length (snd (snd vars)) = depth \<Longrightarrow>
   addPath (Suc depth) path (recordMatch depth san isTick vars) =
     addPath depth (Line san children isTick # path) vars"
  by (cases vars) (auto simp: addPath_def recordMatch_def)

lemma recordMatch_length:
  "length (snd (snd vars)) = depth \<Longrightarrow>
   length (snd (snd (recordMatch depth san isTick vars))) = Suc depth"
  by (cases vars) (simp add: recordMatch_def)

lemma unique_later_no_match:
  assumes "matches playedSAN depth san" and "san = [] \<or> san \<notin> SAN ` set lines"
  shows "\<forall>l \<in> set lines. \<not> matches playedSAN depth (SAN l)"
  using assms unfolding matches_def by (metis image_eqI)

lemma dfs_unique:
  "uniqueSiblings lines \<Longrightarrow> length (snd (snd vars)) = depth \<Longrightarrow>
   snd (dfs playedSAN lines depth vars) =
     addPath depth (firstMatchPath lines (drop depth playedSAN)) vars"
proof (induction playedSAN lines depth vars rule: dfs_induct)
  case (Nil playedSAN depth vars)
  then show ?case by (simp add: firstMatchPath_Nil addPath_Nil)
next
  case (Cons playedSAN san children isTick lines depth vars)
  let ?l = "Line san children isTick"
  let ?vars = "recordMatch depth san isTick vars"
  from Cons.prems(1) have uc: "uniqueSiblings children" and ul: "uniqueSiblings lines"
    and later: "san = [] \<or> san \<notin> SAN ` set lines"
    by simp_all
  show ?case
  proof (cases "matches playedSAN depth san")
    case False
    with Cons.IH(1) ul Cons.prems(2) show ?thesis
      using firstMatchPath_skip [of playedSAN depth ?l lines]
      by (simp add: dfs_skip)
  next
    case True
    have len: "length (snd (snd ?vars)) = depth + 1"
      using Cons.prems(2) by (simp add: recordMatch_length)
    have none: "dfs playedSAN lines depth w = (False, w)" for w
      using unique_later_no_match [OF True later] by (rule dfs_no_match)
    have path: "firstMatchPath (?l # lines) (drop depth playedSAN) =
                ?l # firstMatchPath children (drop (Suc depth) playedSAN)"
      using firstMatchPath_match [of playedSAN depth ?l lines] True by simp
    show ?thesis
    proof (cases "depth + 1 < length playedSAN \<and> children \<noteq> []")
      case deeper: True
      from Cons.IH(2) [OF True deeper uc len]
      have "snd (dfs playedSAN children (Suc depth) ?vars) =
            addPath depth (?l # firstMatchPath children (drop (Suc depth) playedSAN)) vars"
        using Cons.prems(2) by (simp add: addPath_recordMatch)
      with True deeper none path show ?thesis
        by (simp add: dfs_match)
    next
      case shallow: False
      have "firstMatchPath children (drop (Suc depth) playedSAN) = []"
      proof (cases "length playedSAN \<le> depth + 1")
        case True
        then show ?thesis by simp
      next
        case False
        with shallow have "children = []" by simp
        then show ?thesis by (simp add: firstMatchPath_Nil)
      qed
      then have "addPath depth (firstMatchPath (?l # lines) (drop depth playedSAN)) vars = ?vars"
        using path addPath_recordMatch [OF Cons.prems(2), of "[]" san isTick children]
        by (simp add: addPath_Nil)
      with True shallow none show ?thesis
        by (simp add: dfs_match)
    qed
  qed
qed

text \<open>The longest prefix of the played moves that a path spells.\<close>

lemma spelled_Nil: "spelled [] ts = 0"
  by (cases ts) simp_all

lemma spelled_le: "spelled lines ts \<le> length ts"
proof (induction ts arbitrary: lines)
  case Nil
  then show ?case by simp
next
  case (Cons t ts)
  have "foldr (\<lambda>l n. if SAN l \<noteq> [] \<and> SAN l = t then max (Suc (spelled (Children l) ts)) n else n)
          ls 0 \<le> Suc (length ts)" for ls
  proof (induction ls)
    case Nil
    then show ?case by simp
  next
    case (Cons l ls)
    with \<open>\<And>lines. spelled lines ts \<le> length ts\<close> [of "Children l"] show ?case
      by auto
  qed
  then show ?case by simp
qed

lemma spelled_skip:
  "\<not> matches playedSAN depth (SAN l) \<Longrightarrow>
   spelled (l # lines) (drop depth playedSAN) = spelled lines (drop depth playedSAN)"
proof (cases "depth < length playedSAN")
  case True
  assume "\<not> matches playedSAN depth (SAN l)"
  with True show ?thesis
    by (auto simp: Cons_nth_drop_Suc [symmetric] matches_def)
next
  case False
  then show ?thesis by simp
qed

lemma spelled_match:
  "matches playedSAN depth (SAN l) \<Longrightarrow>
   spelled (l # lines) (drop depth playedSAN) =
     max (Suc (spelled (Children l) (drop (Suc depth) playedSAN)))
         (spelled lines (drop depth playedSAN))"
  by (auto simp: Cons_nth_drop_Suc [symmetric] matches_def)

lemma recordMatch_prefix:
  assumes "matches playedSAN depth san" and "snd (snd vars) = take k playedSAN"
    and "k \<le> length playedSAN" and "depth \<le> k"
  shows "snd (snd (recordMatch depth san isTick vars)) = take (max k (Suc depth)) playedSAN"
proof -
  obtain c n m where vars: "vars = (c, n, m)" by (cases vars)
  from assms(1) have lt: "depth < length playedSAN" and san: "san = playedSAN ! depth"
    unfolding matches_def by blast+
  from assms(2,3) vars have m: "m = take k playedSAN" and len: "length m = k"
    by simp_all
  show ?thesis
  proof (cases "depth < k")
    case True
    then have "m[depth := san] = m"
      using m san lt by (simp add: list_update_same_conv)
    moreover from True have "max k (Suc depth) = k" by simp
    ultimately show ?thesis
      using True len vars m by (simp add: recordMatch_def)
  next
    case False
    with assms(4) have "depth = k" by simp
    with len vars m san lt show ?thesis
      by (simp add: recordMatch_def take_Suc_conv_app_nth)
  qed
qed

lemma recordMatch_correct:
  "fst (recordMatch depth san isTick vars) = (fst vars \<or> depth = 0)"
  by (cases vars) (auto simp: recordMatch_def)

lemma dfs_longest:
  assumes "snd (snd vars) = take k playedSAN" and "k \<le> length playedSAN" and "depth \<le> k"
  shows "snd (snd (snd (dfs playedSAN lines depth vars))) =
           take (max k (depth + spelled lines (drop depth playedSAN))) playedSAN \<and>
         (fst (dfs playedSAN lines depth vars) \<longrightarrow>
            depth + spelled lines (drop depth playedSAN) = length playedSAN) \<and>
         fst (snd (dfs playedSAN lines depth vars)) =
           (fst vars \<or> (depth = 0 \<and> 0 < spelled lines (drop depth playedSAN)))"
  using assms
proof (induction playedSAN lines depth vars arbitrary: k rule: dfs_induct)
  case (Nil playedSAN depth vars)
  then show ?case by (simp add: spelled_Nil max_def)
next
  case (Cons playedSAN san children isTick lines depth vars)
  let ?l = "Line san children isTick"
  let ?sl = "spelled lines (drop depth playedSAN)"
  let ?sc = "spelled children (drop (Suc depth) playedSAN)"
  have sl: "?sl \<le> length playedSAN - depth"
    using spelled_le [of lines "drop depth playedSAN"] by simp
  have sc: "?sc \<le> length playedSAN - Suc depth"
    using spelled_le [of children "drop (Suc depth) playedSAN"] by simp
  show ?case
  proof (cases "matches playedSAN depth san")
    case False
    with Cons.IH(1) [OF False Cons.prems] show ?thesis
      using spelled_skip [of playedSAN depth ?l lines] by (simp add: dfs_skip)
  next
    case True
    then have lt: "depth < length playedSAN" unfolding matches_def by blast
    let ?vars = "recordMatch depth san isTick vars"
    let ?k = "max k (Suc depth)"
    have sp: "spelled (?l # lines) (drop depth playedSAN) = max (Suc ?sc) ?sl"
      using spelled_match [of playedSAN depth ?l lines] True by simp
    have v1: "snd (snd ?vars) = take ?k playedSAN"
      using True Cons.prems by (rule recordMatch_prefix)
    have v2: "?k \<le> length playedSAN" using Cons.prems(2) lt by simp
    have v3: "depth + 1 \<le> ?k" "depth \<le> ?k" by simp_all
    have c1: "fst ?vars = (fst vars \<or> depth = 0)" by (rule recordMatch_correct)
    show ?thesis
    proof (cases "depth + 1 < length playedSAN \<and> children \<noteq> []")
      case deeper: True
      let ?r = "dfs playedSAN children (depth + 1) ?vars"
      let ?k2 = "max ?k (Suc depth + ?sc)"
      from Cons.IH(2) [OF True deeper v1 v2 v3(1)]
      have r1: "snd (snd (snd ?r)) = take ?k2 playedSAN"
        and r2: "fst ?r \<longrightarrow> Suc depth + ?sc = length playedSAN"
        and r3: "fst (snd ?r) = (fst ?vars \<or> False)"
        by simp_all
      show ?thesis
      proof (cases "fst ?r")
        case found: True
        with r2 have full: "Suc depth + ?sc = length playedSAN" by simp
        with sl have mx: "max (Suc ?sc) ?sl = Suc ?sc" by simp
        from True deeper found have step: "dfs playedSAN (?l # lines) depth vars =
            (True, snd ?r)"
          by (simp add: dfs_match)
        have km: "?k2 = max k (depth + Suc ?sc)" by simp
        from r1 r3 c1 full show ?thesis
          unfolding step sp mx km by simp
      next
        case notfound: False
        have "Suc depth + ?sc \<le> length playedSAN" using sc deeper by arith
        with v2 have k2: "?k2 \<le> length playedSAN" by simp
        have d2: "depth \<le> ?k2" by simp
        from Cons.IH(3) [OF True deeper notfound r1 k2 d2]
        have s1: "snd (snd (snd (dfs playedSAN lines depth (snd ?r)))) =
                    take (max ?k2 (depth + ?sl)) playedSAN"
          and s2: "fst (dfs playedSAN lines depth (snd ?r)) \<longrightarrow>
                     depth + ?sl = length playedSAN"
          and s3: "fst (snd (dfs playedSAN lines depth (snd ?r))) =
                     (fst (snd ?r) \<or> (depth = 0 \<and> 0 < ?sl))"
          by simp_all
        have km: "max ?k2 (depth + ?sl) = max k (depth + max (Suc ?sc) ?sl)"
          by simp
        have full: "depth + ?sl = length playedSAN \<Longrightarrow>
                    depth + max (Suc ?sc) ?sl = length playedSAN"
          using sc lt by simp
        from True deeper notfound have step: "dfs playedSAN (?l # lines) depth vars =
            dfs playedSAN lines depth (snd ?r)"
          by (simp add: dfs_match)
        have "0 < max (Suc ?sc) ?sl" by simp
        with s1 s2 s3 r3 c1 km full show ?thesis
          unfolding step sp by (auto simp del: max_less_iff_conj less_max_iff_disj)
      qed
    next
      case shallow: False
      show ?thesis
      proof (cases "length playedSAN \<le> depth + 1")
        case True
        with lt have e: "length playedSAN = Suc depth" by simp
        then have "?sc = 0" using sc by simp
        moreover from e sl have "?sl \<le> 1" by simp
        ultimately have "max (Suc ?sc) ?sl = 1" by simp
        with \<open>matches playedSAN depth san\<close> shallow True v1 c1 sp e show ?thesis
          by (simp add: dfs_match)
      next
        case False
        with shallow have "children = []" by simp
        then have sc0: "?sc = 0" by (simp add: spelled_Nil)
        from Cons.IH(4) [OF True shallow False v1 v2 v3(2)]
        have s1: "snd (snd (snd (dfs playedSAN lines depth ?vars))) =
                    take (max ?k (depth + ?sl)) playedSAN"
          and s2: "fst (dfs playedSAN lines depth ?vars) \<longrightarrow> depth + ?sl = length playedSAN"
          and s3: "fst (snd (dfs playedSAN lines depth ?vars)) =
                     (fst ?vars \<or> (depth = 0 \<and> 0 < ?sl))"
          by simp_all
        have km: "max ?k (depth + ?sl) = max k (depth + max (Suc ?sc) ?sl)"
          using sc0 by simp
        have full: "depth + ?sl = length playedSAN \<Longrightarrow>
                    depth + max (Suc ?sc) ?sl = length playedSAN"
          using sc0 False by simp
        from True shallow False have step: "dfs playedSAN (?l # lines) depth vars =
            dfs playedSAN lines depth ?vars"
          by (simp add: dfs_match)
        have "0 < max (Suc ?sc) ?sl" by simp
        with s1 s2 s3 c1 km full show ?thesis
          unfolding step sp by (auto simp del: max_less_iff_conj less_max_iff_disj)
      qed
    qed
  qed
qed

text \<open>
  C5, as the code has it. The search does go back: the siblings are tried in authored
  order, and when the search under a matching sibling fails the later siblings are tried,
  so that correct and matchedLine are those of the longest prefix of the played moves
  that some path of the forest spells. When no two siblings carry the same non-empty
  move, at most one sibling matches at each depth, and the result of gradeSolution is the
  grade of the single path that takes the first matching sibling at each depth.
\<close>

theorem gradeSolution_search:
  "fst (gradeSolution puzzle playedSAN) = (0 < spelled (Lines (Solution puzzle)) playedSAN) \<and>
   snd (snd (gradeSolution puzzle playedSAN)) =
     take (spelled (Lines (Solution puzzle)) playedSAN) playedSAN \<and>
   (uniqueSiblings (Lines (Solution puzzle)) \<longrightarrow>
      gradeSolution puzzle playedSAN = firstPathGrade (Lines (Solution puzzle)) playedSAN)"
proof (cases playedSAN)
  case Nil
  then show ?thesis by (simp add: gradeSolution_def firstPathGrade_def)
next
  case (Cons t ts)
  let ?lines = "Lines (Solution puzzle)"
  have g: "gradeSolution puzzle playedSAN = snd (dfs playedSAN ?lines 0 (False, 0, []))"
    using Cons by (simp add: gradeSolution_def)
  have "snd (snd (False, 0::nat, []::string list)) = take 0 playedSAN"
    "(0::nat) \<le> length playedSAN" "(0::nat) \<le> 0"
    by simp_all
  from dfs_longest [OF this, of ?lines]
  have best: "fst (gradeSolution puzzle playedSAN) = (0 < spelled ?lines playedSAN)"
    "snd (snd (gradeSolution puzzle playedSAN)) = take (spelled ?lines playedSAN) playedSAN"
    unfolding g by simp_all
  have "gradeSolution puzzle playedSAN = firstPathGrade ?lines playedSAN"
    if "uniqueSiblings ?lines"
    using dfs_unique [OF that, of "(False, 0, [])" 0 playedSAN]
    unfolding g by (simp add: firstPathGrade_def addPath_def Let_def)
  with best show ?thesis by blast
qed

theorem gradeSolution_search_witness:
  "uniqueSiblings (Lines (Solution mergedPuzzle)) \<and>
   firstPathGrade (Lines (Solution mergedPuzzle)) [''e4'', ''c5''] = (True, 2, [''e4'', ''c5'']) \<and>
   gradeSolution mergedPuzzle [''e4'', ''c5''] = (True, 2, [''e4'', ''c5''])"
proof -
  have u: "uniqueSiblings (Lines (Solution mergedPuzzle))"
    by (simp add: mergedPuzzle_def)
  have f: "firstPathGrade (Lines (Solution mergedPuzzle)) [''e4'', ''c5''] =
           (True, 2, [''e4'', ''c5''])"
    by (simp add: mergedPuzzle_def firstPathGrade_def)
  from gradeSolution_search [of mergedPuzzle "[''e4'', ''c5'']"] u f show ?thesis
    by simp
qed

text \<open>
  C5 as stated fails. The two authored lines e4 e5 and e4 c5 share their opening move.
  For the typed moves e4 c5 the first sibling e4 matches, the mismatch comes under it,
  and the search goes on to the second sibling e4: the grade is 3 points and the line
  e4 c5, where the first matching path alone gives 1 point and the line e4.
\<close>

theorem gradeSolution_backtracks_counterexample:
  "gradeSolution twoLinesPuzzle [''e4'', ''c5''] = (True, 3, [''e4'', ''c5'']) \<and>
   firstPathGrade (Lines (Solution twoLinesPuzzle)) [''e4'', ''c5''] = (True, 1, [''e4''])"
  by (simp add: twoLinesPuzzle_def gradeSolution_def firstPathGrade_def)



section \<open>Nodes with an empty move\<close>

text \<open>
  C4 at the input that breaks it. The flat solution has one node with an empty move, the
  typed list is one empty string: gradeLine matches the node, sets depthMatched to 1 and
  gives 2 points for it. (The branching mode skips such a node, see
  \<open>gradeSolution_matched_nonempty\<close>.)
\<close>

theorem gradeLine_matches_empty_move:
  "gradeLine emptyMovePuzzle [''''] =
     \<lparr>Correct = True, Score = 2, TicksMatched = [0], DepthMatched = 1,
      EarliestMistake = None, BestLine = [''''], RequiredTicks = []\<rparr>"
  by code_simp

section \<open>Properties of updateDailyPlans\<close>

lemma updateUserPlan_log:
  "\<exists>line. snd (updateUserPlan service execFails now userID st) = snd st @ [line] \<and>
          logUser line = Some userID"
  by (simp add: updateUserPlan_def Let_def split: prod.splits option.splits)

text \<open>
  The work on one user, by the answers of the service at the state reached. A user whose
  plan cannot be got, built or stored is passed over: the table is left as the service
  returned it, no row is updated, and the one line logged is the error of that user.
\<close>

lemma updateUserPlan_failed_get:
  "GetOrCreateDailyPlan service userID (fst st) = (None, db1) \<Longrightarrow>
   updateUserPlan service execFails now userID st = (db1, snd st @ [ErrorGettingPlan userID])"
  by (simp add: updateUserPlan_def)

lemma updateUserPlan_failed_build:
  "GetOrCreateDailyPlan service userID (fst st) = (Some plan, db1) \<Longrightarrow>
   BuildTodayBatch service userID plan db1 = (None, db2) \<Longrightarrow>
   updateUserPlan service execFails now userID st = (db2, snd st @ [ErrorBuildingBatch userID])"
  by (simp add: updateUserPlan_def)

lemma updateUserPlan_built:
  "GetOrCreateDailyPlan service userID (fst st) = (Some plan, db1) \<Longrightarrow>
   BuildTodayBatch service userID plan db1 = (Some todayBatch, db2) \<Longrightarrow>
   updateUserPlan service execFails now userID st =
     (if execFails userID then (db2, snd st @ [ErrorUpdatingPlan userID])
      else (updatePlanRows now (plan\<lparr>TodayBatch := todayBatch\<rparr>) userID db2,
            snd st @ [UpdatedPlan userID (length todayBatch)]))"
  by (simp add: updateUserPlan_def Let_def)

lemma sweepUsers_append:
  "sweepUsers service execFails now (us1 @ us2) st =
     sweepUsers service execFails now us2 (sweepUsers service execFails now us1 st)"
  by (induction us1 arbitrary: st) simp_all

lemma sweepUsers_log:
  "map logUser (snd (sweepUsers service execFails now userIDs st)) =
     map logUser (snd st) @ map Some userIDs"
proof (induction userIDs arbitrary: st)
  case Nil
  then show ?case by simp
next
  case (Cons userID userIDs)
  obtain line where "snd (updateUserPlan service execFails now userID st) = snd st @ [line]"
    and "logUser line = Some userID"
    using updateUserPlan_log by blast
  with Cons.IH [of "updateUserPlan service execFails now userID st"]
  show ?case by simp
qed

text \<open>
  C9. Once the list of users has been read, the sweep does the work on every user of the
  list in turn, at the state the users before have left, whatever their outcome: for a
  user \<open>u\<close> anywhere in the list, the result of the sweep is the sweep over the users
  after \<open>u\<close>, started from the work on \<open>u\<close>. The work on a user, at any state, is
  decided by the answers of the service for that user alone: when the plan cannot be got
  or built, or the update of the row fails, no row is updated, the table is left as the
  service returned it and the error of that user is logged; otherwise the active rows of
  that user get the plan with today's batch. The log has one line for every user of the
  list, in the order of the list.
\<close>

theorem updateDailyPlans_never_aborts:
  assumes "\<not> selectFails" and "sweepList db = us1 @ u # us2"
  shows "updateDailyPlans service selectFails execFails now db =
           sweepUsers service execFails now us2
             (updateUserPlan service execFails now u
                (sweepUsers service execFails now us1 (db, []))) \<and>
         (\<forall>userID st db1.
            GetOrCreateDailyPlan service userID (fst st) = (None, db1) \<longrightarrow>
            updateUserPlan service execFails now userID st =
              (db1, snd st @ [ErrorGettingPlan userID])) \<and>
         (\<forall>userID st plan db1 db2.
            GetOrCreateDailyPlan service userID (fst st) = (Some plan, db1) \<and>
            BuildTodayBatch service userID plan db1 = (None, db2) \<longrightarrow>
            updateUserPlan service execFails now userID st =
              (db2, snd st @ [ErrorBuildingBatch userID])) \<and>
         (\<forall>userID st plan db1 todayBatch db2.
            GetOrCreateDailyPlan service userID (fst st) = (Some plan, db1) \<and>
            BuildTodayBatch service userID plan db1 = (Some todayBatch, db2) \<longrightarrow>
            updateUserPlan service execFails now userID st =
              (if execFails userID then (db2, snd st @ [ErrorUpdatingPlan userID])
               else (updatePlanRows now (plan\<lparr>TodayBatch := todayBatch\<rparr>) userID db2,
                     snd st @ [UpdatedPlan userID (length todayBatch)]))) \<and>
         map logUser (snd (updateDailyPlans service selectFails execFails now db)) =
           map Some (sweepList db)"
proof (intro conjI allI impI)
  show "updateDailyPlans service selectFails execFails now db =
          sweepUsers service execFails now us2
            (updateUserPlan service execFails now u
               (sweepUsers service execFails now us1 (db, [])))"
    using assms sweepUsers_append [of service execFails now us1 "u # us2" "(db, [])"]
    by (simp add: updateDailyPlans_def)
next
  fix userID and st :: "dailyPlans \<times> logLine list" and db1
  assume "GetOrCreateDailyPlan service userID (fst st) = (None, db1)"
  then show "updateUserPlan service execFails now userID st =
               (db1, snd st @ [ErrorGettingPlan userID])"
    by (rule updateUserPlan_failed_get)
next
  fix userID and st :: "dailyPlans \<times> logLine list" and plan db1 db2
  assume "GetOrCreateDailyPlan service userID (fst st) = (Some plan, db1) \<and>
          BuildTodayBatch service userID plan db1 = (None, db2)"
  then show "updateUserPlan service execFails now userID st =
               (db2, snd st @ [ErrorBuildingBatch userID])"
    by (simp add: updateUserPlan_failed_build)
next
  fix userID and st :: "dailyPlans \<times> logLine list" and plan db1 todayBatch db2
  assume "GetOrCreateDailyPlan service userID (fst st) = (Some plan, db1) \<and>
          BuildTodayBatch service userID plan db1 = (Some todayBatch, db2)"
  then show "updateUserPlan service execFails now userID st =
               (if execFails userID then (db2, snd st @ [ErrorUpdatingPlan userID])
                else (updatePlanRows now (plan\<lparr>TodayBatch := todayBatch\<rparr>) userID db2,
                      snd st @ [UpdatedPlan userID (length todayBatch)]))"
    by (simp add: updateUserPlan_built)
next
  show "map logUser (snd (updateDailyPlans service selectFails execFails now db)) =
          map Some (sweepList db)"
    using assms(1) sweepUsers_log [of service execFails now "sweepList db" "(db, [])"]
    by (simp add: updateDailyPlans_def)
qed

text \<open>
  The sweep over the users ann and bob with a service that cannot get the plan of ann:
  the row of ann is left as it was, the row of bob, the user after the failure, gets
  today's batch.
\<close>

theorem updateDailyPlans_never_aborts_witness:
  "sweepList twoPlans = [] @ ''ann'' # [''bob''] \<and>
   GetOrCreateDailyPlan failingService ''ann'' twoPlans = (None, twoPlans) \<and>
   updateDailyPlans failingService False (\<lambda>userID. False) 5 twoPlans =
     ([\<lparr>user_id = ''ann'',
        daily_plan_json = \<lparr>Active = True, TodayBatch = [], GeneratedAt = 0\<rparr>,
        active = True, plan_updated_at = 0\<rparr>,
       \<lparr>user_id = ''bob'',
        daily_plan_json = \<lparr>Active = True, TodayBatch = [''wpm_easy_001''], GeneratedAt = 0\<rparr>,
        active = True, plan_updated_at = 5\<rparr>],
      [ErrorGettingPlan ''ann'', UpdatedPlan ''bob'' 1])"
proof -
  have n: "\<not> False" by simp
  have l: "sweepList twoPlans = [] @ ''ann'' # [''bob'']"
    by (simp add: sweepList_def selectActiveUsers_def twoPlans_def)
  have g: "GetOrCreateDailyPlan failingService ''ann'' twoPlans = (None, twoPlans)"
    by (simp add: failingService_def)
  note all = updateDailyPlans_never_aborts
    [OF n l, of failingService "\<lambda>userID. False" 5]
  from all have split: "updateDailyPlans failingService False (\<lambda>userID. False) 5 twoPlans =
      sweepUsers failingService (\<lambda>userID. False) 5 [''bob'']
        (updateUserPlan failingService (\<lambda>userID. False) 5 ''ann''
           (sweepUsers failingService (\<lambda>userID. False) 5 [] (twoPlans, [])))"
    by (rule conjunct1)
  from all g have ann: "updateUserPlan failingService (\<lambda>userID. False) 5 ''ann'' (twoPlans, []) =
      (twoPlans, [] @ [ErrorGettingPlan ''ann''])"
    by simp
  have bob: "sweepUsers failingService (\<lambda>userID. False) 5 [''bob'']
               (twoPlans, [ErrorGettingPlan ''ann'']) =
      ([\<lparr>user_id = ''ann'',
         daily_plan_json = \<lparr>Active = True, TodayBatch = [], GeneratedAt = 0\<rparr>,
         active = True, plan_updated_at = 0\<rparr>,
        \<lparr>user_id = ''bob'',
         daily_plan_json = \<lparr>Active = True, TodayBatch = [''wpm_easy_001''], GeneratedAt = 0\<rparr>,
         active = True, plan_updated_at = 5\<rparr>],
       [ErrorGettingPlan ''ann'', UpdatedPlan ''bob'' 1])"
    by (simp add: updateUserPlan_def failingService_def twoPlans_def updatePlanRows_def)
  from split ann bob l g show ?thesis
    by simp
qed


end
